theory Spec2Isabelle
  imports Complex_Main "HOL-Library.Word" "HOL-Library.Multiset"
begin

section \<open>Faults\<close>

text \<open>
  Every way in which the C/C++ source leaves defined behaviour is a value of \<open>fault\<close>:
  an array read or write outside the allocation, a failed \<^verbatim>\<open>BLI_assert\<close> (debug builds
  only), a call through a null shader, a pass reference that no longer names an element of
  the sub-pass container.
\<close>

datatype fault = OutOfBounds | AssertFailed | NullDeref | DanglingRef

section \<open>The identifier map (bmesh\_idmap.h)\<close>

type_synonym BMElem_ptr = nat

text \<open>
  Modelled from the spec: \<^verbatim>\<open>BMElem\<close> and the macro \<^verbatim>\<open>BM_ELEM_CD_GET_INT\<close> are declared in
  bmesh headers that are not part of the sources. The spec says that every object owns its
  id field, in a per-category storage slot; so an element is its type tag \<open>head_htype\<close>
  and its custom-data block \<open>head_data\<close>, read at an offset.
\<close>

record BMElem =
  head_htype :: nat
  head_data :: "int \<Rightarrow> int"

definition BM_ELEM_CD_GET_INT :: "BMElem \<Rightarrow> int \<Rightarrow> int" where
  "BM_ELEM_CD_GET_INT elem off = head_data elem off"

text \<open>
  \<^verbatim>\<open>struct BMIdMap\<close>. The array \<^verbatim>\<open>BMElem **map\<close> is the list \<open>idmap\<close> of possibly-null
  pointers (its length is the size of the allocation); \<^verbatim>\<open>map_size\<close> is the separate field
  of the struct. The mesh pointer \<^verbatim>\<open>bm\<close> is an address.
\<close>

record BMIdMap =
  flag :: int
  maxid :: nat
  cd_id_off :: "int list"
  bm :: nat
  idmap :: "BMElem_ptr option list"
  map_size :: int
  freelist :: "int list"
  free_idx_map :: "(int \<rightharpoonup> int) option"

text \<open>The struct invariant: \<^verbatim>\<open>map_size\<close> is the allocated size, \<^verbatim>\<open>cd_id_off\<close> has 15 entries.\<close>

definition idmap_ok :: "BMIdMap \<Rightarrow> bool" where
  "idmap_ok m \<longleftrightarrow> map_size m = int (length (idmap m)) \<and> length (cd_id_off m) = 15"

text \<open>\<^verbatim>\<open>cd_id_off[(int)elem->head.htype]\<close>: a read of the fixed array of 15 offsets.\<close>

definition id_offset :: "BMIdMap \<Rightarrow> BMElem \<Rightarrow> fault + int" where
  "id_offset m elem =
     (if head_htype elem < length (cd_id_off m) then Inr (cd_id_off m ! head_htype elem)
      else Inl OutOfBounds)"

definition BM_idmap_get_id :: "BMIdMap \<Rightarrow> BMElem \<Rightarrow> fault + int" where
  "BM_idmap_get_id m elem =
     (case id_offset m elem of Inl e \<Rightarrow> Inl e | Inr off \<Rightarrow> Inr (BM_ELEM_CD_GET_INT elem off))"

text \<open>
  \<^verbatim>\<open>return elem >= 0 ? map->map[elem] : NULL;\<close>
  The only test is the lower bound; the read \<^verbatim>\<open>map->map[elem]\<close> is outside the allocation
  when \<open>elem\<close> is not below its size.
\<close>

definition BM_idmap_lookup :: "BMIdMap \<Rightarrow> int \<Rightarrow> fault + BMElem_ptr option" where
  "BM_idmap_lookup m elem =
     (if elem \<ge> 0 then
        (if nat elem < length (idmap m) then Inr (idmap m ! nat elem) else Inl OutOfBounds)
      else Inr None)"

text \<open>
  \<^verbatim>\<open>BM_idmap_on_elem_moved\<close>. \<open>mem\<close> is the memory holding the elements, so that the id is
  read through the pointer \<^verbatim>\<open>new_elem\<close>. The first \<^verbatim>\<open>if\<close> of the source has an empty body
  (its \<^verbatim>\<open>printf\<close> is commented out) and its condition reads \<^verbatim>\<open>map->map[id]\<close> only when the id
  is in range, so it has no effect and no fault.
\<close>

definition BM_idmap_on_elem_moved ::
  "(BMElem_ptr \<Rightarrow> BMElem) \<Rightarrow> BMIdMap \<Rightarrow> BMElem_ptr \<Rightarrow> BMElem_ptr \<Rightarrow> fault + BMIdMap" where
  "BM_idmap_on_elem_moved mem m old_elem new_elem =
     (case id_offset m (mem new_elem) of
        Inl e \<Rightarrow> Inl e
      | Inr off \<Rightarrow>
          (let id = BM_ELEM_CD_GET_INT (mem new_elem) off in
           if id \<ge> 0 \<and> id < map_size m then
             (if nat id < length (idmap m)
              then Inr (m\<lparr>idmap := (idmap m)[nat id := Some new_elem]\<rparr>)
              else Inl OutOfBounds)
           else Inr m))"

section \<open>The sub-pass container (draw\_pass.hh, SubPassVector)\<close>

text \<open>
  \<^verbatim>\<open>Vector<std::unique_ptr<Vector<T, block_size>>, 0> blocks_\<close>: a list of blocks, each a
  list. An element lives in the block it was appended to, at the offset it was appended
  at; the outer vector holds pointers to the blocks, so growing it moves no element. The
  indices are \<^verbatim>\<open>int64_t\<close> values that count elements, modelled as \<open>nat\<close>.
\<close>

type_synonym 'a SubPassVector = "'a list list"

definition append_and_get_index :: "nat \<Rightarrow> 'a \<Rightarrow> 'a SubPassVector \<Rightarrow> 'a SubPassVector \<times> nat" where
  "append_and_get_index block_size elem blocks =
     (let blocks1 = (if blocks = [] \<or> length (last blocks) = block_size
                     then blocks @ [[]] else blocks);
          inner = length (last blocks1);
          blocks2 = butlast blocks1 @ [last blocks1 @ [elem]]
      in (blocks2, inner + (length blocks2 - 1) * block_size))"

text \<open>
  \<^verbatim>\<open>operator[]\<close>: the element \<^verbatim>\<open>index % block_size\<close> of the block \<^verbatim>\<open>index / block_size\<close>,
  neither of the two reads checked.
\<close>

definition spv_get :: "nat \<Rightarrow> 'a SubPassVector \<Rightarrow> nat \<Rightarrow> fault + 'a" where
  "spv_get block_size blocks i =
     (if i div block_size < length blocks \<and> i mod block_size < length (blocks ! (i div block_size))
      then Inr (blocks ! (i div block_size) ! (i mod block_size))
      else Inl OutOfBounds)"

text \<open>An assignment through the reference that \<^verbatim>\<open>operator[]\<close> returns.\<close>

definition spv_set :: "nat \<Rightarrow> 'a SubPassVector \<Rightarrow> nat \<Rightarrow> 'a \<Rightarrow> fault + 'a SubPassVector" where
  "spv_set block_size blocks i x =
     (if i div block_size < length blocks \<and> i mod block_size < length (blocks ! (i div block_size))
      then Inr (blocks[i div block_size := (blocks ! (i div block_size))[i mod block_size := x]])
      else Inl OutOfBounds)"

text \<open>A run of appends, collecting the returned indices.\<close>

fun append_all :: "nat \<Rightarrow> 'a list \<Rightarrow> 'a SubPassVector \<Rightarrow> 'a SubPassVector \<times> nat list" where
  "append_all block_size [] blocks = (blocks, [])"
| "append_all block_size (x # xs) blocks =
     (let (blocks1, i) = append_and_get_index block_size x blocks;
          (blocks2, is) = append_all block_size xs blocks1
      in (blocks2, i # is))"

text \<open>
  The shape every container built by appends has: all blocks but the last are full, the
  last one is not empty and not over the inline size.
\<close>

definition spv_inv :: "nat \<Rightarrow> 'a SubPassVector \<Rightarrow> bool" where
  "spv_inv block_size blocks \<longleftrightarrow>
     (\<forall>b \<in> set (butlast blocks). length b = block_size) \<and>
     (blocks \<noteq> [] \<longrightarrow> 0 < length (last blocks) \<and> length (last blocks) \<le> block_size)"

section \<open>Commands and headers (draw\_pass.hh; draw\_command.hh is not among the sources)\<close>

text \<open>
  \<^verbatim>\<open>command::Type\<close>, with the members that the \<^verbatim>\<open>switch\<close> of \<^verbatim>\<open>PassBase::submit\<close> names.
\<close>

datatype command_Type =
    Type_None | Type_SubPass | Type_ShaderBind | Type_ResourceBind | Type_PushConstant
  | Type_Draw | Type_DrawMulti | Type_DrawIndirect | Type_Dispatch | Type_DispatchIndirect
  | Type_Barrier | Type_Clear | Type_StateSet | Type_StencilSet

text \<open>
  \<^verbatim>\<open>command::Header\<close> is built as \<^verbatim>\<open>{type, uint(index)}\<close>: the index is a 32-bit unsigned
  value, and the conversion from the \<^verbatim>\<open>int64_t\<close> index truncates.
\<close>

record Header =
  header_type :: command_Type
  header_index :: "32 word"

type_synonym ptr = nat
type_synonym float = real

text \<open>
  Pointers (shaders, batches, buffers, textures) are addresses. A \<^verbatim>\<open>float\<close> is only stored
  or compared in this code; finite values are modelled by the reals they denote, a NaN is
  outside the model.
\<close>

datatype eGPUFrameBufferBits = GPU_COLOR_BIT | GPU_DEPTH_BIT | GPU_STENCIL_BIT

datatype GPUPrimType =
  GPU_PRIM_POINTS | GPU_PRIM_LINES | GPU_PRIM_TRIS | GPU_PRIM_TRI_STRIP | GPU_PRIM_other nat

text \<open>The resource of a bind call: the pointer, or the pointer to the pointer, of each kind.\<close>

datatype resource =
    ssbo ptr | ssbo_ref ptr | ubo ptr | ubo_ref ptr
  | texture ptr nat | texture_ref ptr nat | as_image ptr | as_image_ref ptr

text \<open>
  The value of a \<^verbatim>\<open>push_constant\<close> overload other than the \<^verbatim>\<open>float4x4\<close> one: one to four
  floats or ints by value, a bool, or a pointer with its component count and array length.
\<close>

datatype push_constant_arg =
    pc_floats "float list" | pc_ints "int list" | pc_bool bool
  | pc_float_ptr ptr nat int | pc_int_ptr ptr nat int | pc_float4x4_ptr ptr

datatype PushConstant_Type = IntValue | FloatValue | IntReference | FloatReference

datatype dispatch_arg = group_len int int int | group_len_ref ptr

text \<open>
  \<^verbatim>\<open>command::Undetermined\<close>, the union of the command structs. The structs are declared in
  the absent header, so a slot holds what the source writes into it: \<open>Undetermined_init\<close>
  for \<^verbatim>\<open>{}\<close>, and for each member the arguments of the braced initialiser.
  \<open>push_constant_fields\<close> is the \<^verbatim>\<open>PushConstant\<close> that the \<^verbatim>\<open>float4x4\<close> overload fills field
  by field (location, array length, component count, type) with the 16 floats written at
  \<^verbatim>\<open>float4_value\<close>; \<open>float4x4_overrun m k\<close> is what that write leaves in the \<open>k\<close>-th
  slot after it. How many bytes fall into which slot is a matter of the union's layout and
  is not modelled.
\<close>

datatype Undetermined =
    Undetermined_init
  | shader_bind_cmd ptr
  | resource_bind_cmd int resource
  | push_constant_cmd int push_constant_arg
  | push_constant_fields int nat nat PushConstant_Type "float list"
  | float4x4_overrun "float list" nat
  | draw_cmd ptr "32 word" "32 word" "32 word" nat
  | draw_indirect_cmd ptr ptr nat
  | dispatch_cmd dispatch_arg
  | dispatch_indirect_cmd ptr
  | barrier_cmd nat
  | clear_cmd "eGPUFrameBufferBits set" "8 word" float "float list"
  | state_set_cmd nat
  | stencil_set_cmd "8 word" "8 word" "8 word"

section \<open>Passes\<close>

text \<open>
  \<^verbatim>\<open>PassBase\<close>: the fields a pass owns. Its two references, to the draw-command buffer and
  to the sub-pass container, point into the root \<^verbatim>\<open>Pass\<close> and are fields of \<open>Pass\<close> below.
  \<open>shader\<close> is \<open>None\<close> for \<^verbatim>\<open>nullptr\<close>.
\<close>

record PassBase =
  headers :: "Header list"
  commands :: "Undetermined list"
  shader :: "ptr option"
  debug_name :: string

text \<open>
  \<^verbatim>\<open>Pass<DrawCommandBufType>\<close>: the root pass with the container it owns.
  \<^verbatim>\<open>DrawCommandBufType\<close> is declared in the absent header; the functions modelled here only
  clear it and hand it to \<^verbatim>\<open>append_draw\<close>, so it has no field.
\<close>

record Pass =
  root_pass :: PassBase
  sub_passes_main :: "PassBase SubPassVector"

definition sub_pass_block_size :: nat where
  "sub_pass_block_size = 16"

definition PassBase_new :: "string \<Rightarrow> ptr option \<Rightarrow> PassBase" where
  "PassBase_new name sh = \<lparr>headers = [], commands = [], shader = sh, debug_name = name\<rparr>"

definition Pass_new :: "string \<Rightarrow> Pass" where
  "Pass_new name = \<lparr>root_pass = PassBase_new name None, sub_passes_main = []\<rparr>"

definition Pass_init :: "Pass \<Rightarrow> Pass" where
  "Pass_init st = \<lparr>root_pass = (root_pass st)\<lparr>headers := [], commands := []\<rparr>,
                   sub_passes_main = []\<rparr>"

text \<open>
  A \<^verbatim>\<open>PassBase &\<close>: the root itself, or the element of the container that \<^verbatim>\<open>sub\<close> returned.
\<close>

datatype pass_ref = Root | Sub nat

definition get_pass :: "Pass \<Rightarrow> pass_ref \<Rightarrow> fault + PassBase" where
  "get_pass st r =
     (case r of
        Root \<Rightarrow> Inr (root_pass st)
      | Sub i \<Rightarrow> (case spv_get sub_pass_block_size (sub_passes_main st) i of
                    Inl e \<Rightarrow> Inl DanglingRef | Inr p \<Rightarrow> Inr p))"

definition put_pass :: "Pass \<Rightarrow> pass_ref \<Rightarrow> PassBase \<Rightarrow> fault + Pass" where
  "put_pass st r p =
     (case r of
        Root \<Rightarrow> Inr (st\<lparr>root_pass := p\<rparr>)
      | Sub i \<Rightarrow> (case spv_set sub_pass_block_size (sub_passes_main st) i p of
                    Inl e \<Rightarrow> Inl DanglingRef
                  | Inr blocks \<Rightarrow> Inr (st\<lparr>sub_passes_main := blocks\<rparr>)))"

subsection \<open>Recording\<close>

text \<open>
  \<^verbatim>\<open>create_command\<close> returns a reference to the new slot; the caller assigns the payload
  through it. The reference is the slot's position.
\<close>

definition create_command :: "command_Type \<Rightarrow> PassBase \<Rightarrow> PassBase \<times> nat" where
  "create_command t p =
     (let index = length (commands p) in
      (p\<lparr>commands := commands p @ [Undetermined_init],
         headers := headers p @ [\<lparr>header_type = t, header_index = of_nat index\<rparr>]\<rparr>,
       index))"

definition assign_command :: "Undetermined \<Rightarrow> PassBase \<times> nat \<Rightarrow> PassBase" where
  "assign_command c slot = (fst slot)\<lparr>commands := (commands (fst slot))[snd slot := c]\<rparr>"

text \<open>\<^verbatim>\<open>BLI_assert\<close> aborts in a debug build and is compiled out of a release build.\<close>

definition BLI_assert :: "bool \<Rightarrow> bool \<Rightarrow> fault + 'a \<Rightarrow> fault + 'a" where
  "BLI_assert debug cond k = (if debug \<and> \<not> cond then Inl AssertFailed else k)"

text \<open>
  The services of the GPU module that recording calls: the shader interface queries, the
  procedural batches, and the two constants \<^verbatim>\<open>GPU_SAMPLER_MAX\<close> (the value of \<^verbatim>\<open>sampler_auto\<close>)
  and \<^verbatim>\<open>GPU_UBO_BLOCK_NAME\<close>. A query on a null shader dereferences it.
\<close>

record GPU =
  GPU_shader_get_uniform :: "ptr \<Rightarrow> string \<Rightarrow> int"
  GPU_shader_get_ssbo :: "ptr \<Rightarrow> string \<Rightarrow> int"
  GPU_shader_get_uniform_block_binding :: "ptr \<Rightarrow> string \<Rightarrow> int"
  GPU_shader_get_texture_binding :: "ptr \<Rightarrow> string \<Rightarrow> int"
  drw_cache_procedural_points_get :: ptr
  drw_cache_procedural_lines_get :: ptr
  drw_cache_procedural_triangles_get :: ptr
  drw_cache_procedural_triangle_strips_get :: ptr
  GPU_SAMPLER_MAX :: nat
  GPU_UBO_BLOCK_NAME :: string

definition clear ::
  "eGPUFrameBufferBits set \<Rightarrow> float list \<Rightarrow> float \<Rightarrow> 8 word \<Rightarrow> PassBase \<Rightarrow> PassBase" where
  "clear planes color depth stencil p =
     assign_command (clear_cmd planes stencil depth color) (create_command Type_Clear p)"

definition clear_color :: "float list \<Rightarrow> PassBase \<Rightarrow> PassBase" where
  "clear_color color p = clear {GPU_COLOR_BIT} color 0 0 p"

definition clear_depth :: "float \<Rightarrow> PassBase \<Rightarrow> PassBase" where
  "clear_depth depth p = clear {GPU_DEPTH_BIT} [0, 0, 0, 0] depth 0 p"

definition clear_stencil :: "8 word \<Rightarrow> PassBase \<Rightarrow> PassBase" where
  "clear_stencil stencil p = clear {GPU_STENCIL_BIT} [0, 0, 0, 0] 0 stencil p"

definition clear_depth_stencil :: "float \<Rightarrow> 8 word \<Rightarrow> PassBase \<Rightarrow> PassBase" where
  "clear_depth_stencil depth stencil p =
     clear {GPU_DEPTH_BIT, GPU_STENCIL_BIT} [0, 0, 0, 0] depth stencil p"

definition clear_color_depth_stencil :: "float list \<Rightarrow> float \<Rightarrow> 8 word \<Rightarrow> PassBase \<Rightarrow> PassBase" where
  "clear_color_depth_stencil color depth stencil p =
     clear {GPU_DEPTH_BIT, GPU_STENCIL_BIT, GPU_COLOR_BIT} color depth stencil p"

definition procedural_batch_get :: "bool \<Rightarrow> GPU \<Rightarrow> GPUPrimType \<Rightarrow> fault + ptr option" where
  "procedural_batch_get debug gpu primitive =
     (case primitive of
        GPU_PRIM_POINTS \<Rightarrow> Inr (Some (drw_cache_procedural_points_get gpu))
      | GPU_PRIM_LINES \<Rightarrow> Inr (Some (drw_cache_procedural_lines_get gpu))
      | GPU_PRIM_TRIS \<Rightarrow> Inr (Some (drw_cache_procedural_triangles_get gpu))
      | GPU_PRIM_TRI_STRIP \<Rightarrow> Inr (Some (drw_cache_procedural_triangle_strips_get gpu))
      | GPU_PRIM_other n \<Rightarrow> BLI_assert debug False (Inr None))"

text \<open>
  Modelled from the spec: \<^verbatim>\<open>DrawCommandBufType::append_draw\<close> is declared in the absent
  header. The spec says that recording appends one header and one typed payload entry, and
  that draw operations append the corresponding command; so it records one \<^verbatim>\<open>Draw\<close>.
\<close>

definition append_draw ::
  "ptr option \<Rightarrow> 32 word \<Rightarrow> 32 word \<Rightarrow> 32 word \<Rightarrow> nat \<Rightarrow> PassBase \<Rightarrow> PassBase" where
  "append_draw batch instance_len vertex_len vertex_first handle p =
     assign_command (draw_cmd (case batch of None \<Rightarrow> 0 | Some b \<Rightarrow> b)
                       instance_len vertex_len vertex_first handle)
       (create_command Type_Draw p)"

definition draw ::
  "bool \<Rightarrow> ptr option \<Rightarrow> 32 word \<Rightarrow> 32 word \<Rightarrow> 32 word \<Rightarrow> nat \<Rightarrow> PassBase \<Rightarrow> fault + PassBase" where
  "draw debug batch instance_len vertex_len vertex_first handle p =
     (if instance_len = 0 \<or> vertex_len = 0 then Inr p
      else BLI_assert debug (shader p \<noteq> None)
             (Inr (append_draw batch instance_len vertex_len vertex_first handle p)))"

text \<open>\<^verbatim>\<open>draw(batch, handle)\<close> passes \<^verbatim>\<open>-1\<close> for the three unsigned counts.\<close>

definition draw_handle :: "bool \<Rightarrow> ptr option \<Rightarrow> nat \<Rightarrow> PassBase \<Rightarrow> fault + PassBase" where
  "draw_handle debug batch handle p = draw debug batch (- 1) (- 1) (- 1) handle p"

definition draw_procedural ::
  "bool \<Rightarrow> GPU \<Rightarrow> GPUPrimType \<Rightarrow> 32 word \<Rightarrow> 32 word \<Rightarrow> 32 word \<Rightarrow> nat \<Rightarrow> PassBase
     \<Rightarrow> fault + PassBase" where
  "draw_procedural debug gpu primitive instance_len vertex_len vertex_first handle p =
     (case procedural_batch_get debug gpu primitive of
        Inl e \<Rightarrow> Inl e
      | Inr batch \<Rightarrow> draw debug batch instance_len vertex_len vertex_first handle p)"

definition draw_indirect :: "bool \<Rightarrow> ptr option \<Rightarrow> ptr \<Rightarrow> nat \<Rightarrow> PassBase \<Rightarrow> fault + PassBase" where
  "draw_indirect debug batch indirect_buffer handle p =
     BLI_assert debug (shader p \<noteq> None)
       (Inr (assign_command
               (draw_indirect_cmd (case batch of None \<Rightarrow> 0 | Some b \<Rightarrow> b) indirect_buffer handle)
               (create_command Type_DrawIndirect p)))"

definition draw_procedural_indirect ::
  "bool \<Rightarrow> GPU \<Rightarrow> GPUPrimType \<Rightarrow> ptr \<Rightarrow> nat \<Rightarrow> PassBase \<Rightarrow> fault + PassBase" where
  "draw_procedural_indirect debug gpu primitive indirect_buffer handle p =
     (case procedural_batch_get debug gpu primitive of
        Inl e \<Rightarrow> Inl e
      | Inr batch \<Rightarrow> draw_indirect debug batch indirect_buffer handle p)"

text \<open>
  \<^verbatim>\<open>dispatch(int3)\<close> and \<^verbatim>\<open>dispatch(int3 *)\<close> in one definition, the argument saying which;
  neither looks at the group size.
\<close>

definition dispatch :: "bool \<Rightarrow> dispatch_arg \<Rightarrow> PassBase \<Rightarrow> fault + PassBase" where
  "dispatch debug group_len_arg p =
     BLI_assert debug (shader p \<noteq> None)
       (Inr (assign_command (dispatch_cmd group_len_arg) (create_command Type_Dispatch p)))"

definition dispatch_indirect :: "bool \<Rightarrow> ptr \<Rightarrow> PassBase \<Rightarrow> fault + PassBase" where
  "dispatch_indirect debug indirect_buffer p =
     BLI_assert debug (shader p \<noteq> None)
       (Inr (assign_command (dispatch_indirect_cmd indirect_buffer)
               (create_command Type_DispatchIndirect p)))"

definition barrier :: "nat \<Rightarrow> PassBase \<Rightarrow> PassBase" where
  "barrier type p = assign_command (barrier_cmd type) (create_command Type_Barrier p)"

definition state_set :: "nat \<Rightarrow> PassBase \<Rightarrow> PassBase" where
  "state_set state p = assign_command (state_set_cmd state) (create_command Type_StateSet p)"

definition state_stencil :: "8 word \<Rightarrow> 8 word \<Rightarrow> 8 word \<Rightarrow> PassBase \<Rightarrow> PassBase" where
  "state_stencil write_mask reference compare_mask p =
     assign_command (stencil_set_cmd write_mask reference compare_mask)
       (create_command Type_StencilSet p)"

definition shader_set :: "ptr option \<Rightarrow> PassBase \<Rightarrow> PassBase" where
  "shader_set sh p =
     assign_command (shader_bind_cmd (case sh of None \<Rightarrow> 0 | Some s \<Rightarrow> s))
       (create_command Type_ShaderBind (p\<lparr>shader := sh\<rparr>))"

text \<open>
  The sixteen \<^verbatim>\<open>bind_*\<close> overloads: by slot they record a \<^verbatim>\<open>ResourceBind\<close>; by name they
  first ask the bound shader for the slot, with the query that belongs to the resource.
\<close>

definition bind_slot :: "int \<Rightarrow> resource \<Rightarrow> PassBase \<Rightarrow> PassBase" where
  "bind_slot slot res p =
     assign_command (resource_bind_cmd slot res) (create_command Type_ResourceBind p)"

fun binding_query :: "GPU \<Rightarrow> resource \<Rightarrow> ptr \<Rightarrow> string \<Rightarrow> int" where
  "binding_query gpu (ssbo b) = GPU_shader_get_ssbo gpu"
| "binding_query gpu (ssbo_ref b) = GPU_shader_get_ssbo gpu"
| "binding_query gpu (ubo b) = GPU_shader_get_uniform_block_binding gpu"
| "binding_query gpu (ubo_ref b) = GPU_shader_get_uniform_block_binding gpu"
| "binding_query gpu (texture t s) = GPU_shader_get_texture_binding gpu"
| "binding_query gpu (texture_ref t s) = GPU_shader_get_texture_binding gpu"
| "binding_query gpu (as_image t) = GPU_shader_get_texture_binding gpu"
| "binding_query gpu (as_image_ref t) = GPU_shader_get_texture_binding gpu"

definition bind_name :: "GPU \<Rightarrow> string \<Rightarrow> resource \<Rightarrow> PassBase \<Rightarrow> fault + PassBase" where
  "bind_name gpu name res p =
     (case shader p of
        None \<Rightarrow> Inl NullDeref
      | Some sh \<Rightarrow> Inr (bind_slot (binding_query gpu res sh name) res p))"

definition push_constant_offset :: "GPU \<Rightarrow> string \<Rightarrow> PassBase \<Rightarrow> fault + int" where
  "push_constant_offset gpu name p =
     (case shader p of None \<Rightarrow> Inl NullDeref | Some sh \<Rightarrow> Inr (GPU_shader_get_uniform gpu sh name))"

definition push_constant :: "GPU \<Rightarrow> string \<Rightarrow> push_constant_arg \<Rightarrow> PassBase \<Rightarrow> fault + PassBase" where
  "push_constant gpu name data p =
     (case push_constant_offset gpu name p of
        Inl e \<Rightarrow> Inl e
      | Inr location \<Rightarrow>
          Inr (assign_command (push_constant_cmd location data)
                 (create_command Type_PushConstant p)))"

text \<open>
  \<^verbatim>\<open>push_constant(const char *, const float4x4 &)\<close>: the local array \<^verbatim>\<open>commands[3]\<close> is
  filled, then copied into three new commands.
\<close>

definition push_constant_float4x4 :: "GPU \<Rightarrow> string \<Rightarrow> float list \<Rightarrow> PassBase \<Rightarrow> fault + PassBase" where
  "push_constant_float4x4 gpu name data p =
     (case push_constant_offset gpu name p of
        Inl e \<Rightarrow> Inl e
      | Inr location \<Rightarrow>
          (let commands0 = push_constant_fields location 1 16 FloatValue data;
               commands1 = float4x4_overrun data 1;
               commands2 = float4x4_overrun data 2;
               p1 = assign_command commands0 (create_command Type_PushConstant p);
               p2 = assign_command commands1 (create_command Type_None p1);
               p3 = assign_command commands2 (create_command Type_None p2)
           in Inr p3))"

text \<open>
  Modelled from the spec: the material service is not among the sources. The spec says
  that it yields, for a compiled material, its shader handle and an ordered list of texture
  and uniform-buffer bindings; a texture entry carries the \<^verbatim>\<open>GPUMaterialTexture\<close> fields that
  \<^verbatim>\<open>material_set\<close> reads and the textures that the image module returns for it
  (\<open>gpu_tiles\<close>, \<open>gpu_tilemap\<close>, \<open>gpu_texture\<close>). Acquiring a texture changes the manager
  only, not the pass.
\<close>

record GPUMaterialTexture =
  ima :: "ptr option"
  tiled_mapping_name :: string
  sampler_name :: string
  sampler_state :: nat
  colorband :: "ptr option"
  gpu_tiles :: ptr
  gpu_tilemap :: ptr
  gpu_texture :: ptr

record GPUMaterial =
  material_shader :: "ptr option"
  material_textures :: "GPUMaterialTexture list"
  material_uniform_buffer :: "ptr option"

definition material_texture_bind ::
  "GPU \<Rightarrow> GPUMaterialTexture \<Rightarrow> PassBase \<Rightarrow> fault + PassBase" where
  "material_texture_bind gpu tex p =
     (if ima tex \<noteq> None then
        (if tiled_mapping_name tex \<noteq> [] then
           (case bind_name gpu (sampler_name tex) (texture (gpu_tiles tex) (sampler_state tex)) p of
              Inl e \<Rightarrow> Inl e
            | Inr p1 \<Rightarrow> bind_name gpu (tiled_mapping_name tex)
                         (texture (gpu_tilemap tex) (sampler_state tex)) p1)
         else bind_name gpu (sampler_name tex) (texture (gpu_texture tex) (sampler_state tex)) p)
      else (case colorband tex of
              Some t \<Rightarrow> bind_name gpu (sampler_name tex) (texture t (GPU_SAMPLER_MAX gpu)) p
            | None \<Rightarrow> Inr p))"

fun material_textures_bind ::
  "GPU \<Rightarrow> GPUMaterialTexture list \<Rightarrow> PassBase \<Rightarrow> fault + PassBase" where
  "material_textures_bind gpu [] p = Inr p"
| "material_textures_bind gpu (tex # texs) p =
     (case material_texture_bind gpu tex p of
        Inl e \<Rightarrow> Inl e
      | Inr p1 \<Rightarrow> material_textures_bind gpu texs p1)"

definition material_set :: "GPU \<Rightarrow> GPUMaterial \<Rightarrow> PassBase \<Rightarrow> fault + PassBase" where
  "material_set gpu material p =
     (case material_textures_bind gpu (material_textures material)
             (shader_set (material_shader material) p) of
        Inl e \<Rightarrow> Inl e
      | Inr p1 \<Rightarrow>
          (case material_uniform_buffer material of
             Some u \<Rightarrow> bind_name gpu (GPU_UBO_BLOCK_NAME gpu) (ubo u) p1
           | None \<Rightarrow> Inr p1))"

text \<open>
  \<^verbatim>\<open>PassBase::sub\<close>, called on the pass that \<open>r\<close> refers to. The new sub-pass inherits the
  shader of that pass; the header is appended to that pass, which stays where it is while
  the container grows.
\<close>

definition sub :: "string \<Rightarrow> pass_ref \<Rightarrow> Pass \<Rightarrow> fault + Pass \<times> pass_ref" where
  "sub name r st =
     (case get_pass st r of
        Inl e \<Rightarrow> Inl e
      | Inr p \<Rightarrow>
          (let (blocks, index) =
                 append_and_get_index sub_pass_block_size (PassBase_new name (shader p))
                   (sub_passes_main st);
               st1 = st\<lparr>sub_passes_main := blocks\<rparr>;
               p1 = p\<lparr>headers := headers p @
                        [\<lparr>header_type = Type_SubPass, header_index = of_nat index\<rparr>]\<rparr>
           in (case put_pass st1 r p1 of
                 Inl e \<Rightarrow> Inl e
               | Inr st2 \<Rightarrow> Inr (st2, Sub index))))"

text \<open>The recording interface of a pass as data: one constructor for each function.\<close>

datatype op =
    op_state_set nat
  | op_clear_color "float list"
  | op_clear_depth float
  | op_clear_stencil "8 word"
  | op_clear_depth_stencil float "8 word"
  | op_clear_color_depth_stencil "float list" float "8 word"
  | op_state_stencil "8 word" "8 word" "8 word"
  | op_shader_set "ptr option"
  | op_material_set GPUMaterial
  | op_draw "ptr option" "32 word" "32 word" "32 word" nat
  | op_draw_handle "ptr option" nat
  | op_draw_procedural GPUPrimType "32 word" "32 word" "32 word" nat
  | op_draw_indirect "ptr option" ptr nat
  | op_draw_procedural_indirect GPUPrimType ptr nat
  | op_dispatch dispatch_arg
  | op_dispatch_indirect ptr
  | op_barrier nat
  | op_bind_slot int resource
  | op_bind_name string resource
  | op_push_constant string push_constant_arg
  | op_push_constant_float4x4 string "float list"

fun record_op :: "bool \<Rightarrow> GPU \<Rightarrow> op \<Rightarrow> PassBase \<Rightarrow> fault + PassBase" where
  "record_op debug gpu (op_state_set state) p = Inr (state_set state p)"
| "record_op debug gpu (op_clear_color color) p = Inr (clear_color color p)"
| "record_op debug gpu (op_clear_depth depth) p = Inr (clear_depth depth p)"
| "record_op debug gpu (op_clear_stencil stencil) p = Inr (clear_stencil stencil p)"
| "record_op debug gpu (op_clear_depth_stencil depth stencil) p =
     Inr (clear_depth_stencil depth stencil p)"
| "record_op debug gpu (op_clear_color_depth_stencil color depth stencil) p =
     Inr (clear_color_depth_stencil color depth stencil p)"
| "record_op debug gpu (op_state_stencil w r c) p = Inr (state_stencil w r c p)"
| "record_op debug gpu (op_shader_set sh) p = Inr (shader_set sh p)"
| "record_op debug gpu (op_material_set material) p = material_set gpu material p"
| "record_op debug gpu (op_draw batch il vl vf handle) p = draw debug batch il vl vf handle p"
| "record_op debug gpu (op_draw_handle batch handle) p = draw_handle debug batch handle p"
| "record_op debug gpu (op_draw_procedural prim il vl vf handle) p =
     draw_procedural debug gpu prim il vl vf handle p"
| "record_op debug gpu (op_draw_indirect batch buf handle) p =
     draw_indirect debug batch buf handle p"
| "record_op debug gpu (op_draw_procedural_indirect prim buf handle) p =
     draw_procedural_indirect debug gpu prim buf handle p"
| "record_op debug gpu (op_dispatch g) p = dispatch debug g p"
| "record_op debug gpu (op_dispatch_indirect buf) p = dispatch_indirect debug buf p"
| "record_op debug gpu (op_barrier type) p = Inr (barrier type p)"
| "record_op debug gpu (op_bind_slot slot res) p = Inr (bind_slot slot res p)"
| "record_op debug gpu (op_bind_name name res) p = bind_name gpu name res p"
| "record_op debug gpu (op_push_constant name data) p = push_constant gpu name data p"
| "record_op debug gpu (op_push_constant_float4x4 name data) p =
     push_constant_float4x4 gpu name data p"

text \<open>
  A call of the recording interface: a command recorded through a pass reference, or a
  sub-pass created through one.
\<close>

datatype call = call_op pass_ref op | call_sub pass_ref string

definition record_call :: "bool \<Rightarrow> GPU \<Rightarrow> call \<Rightarrow> Pass \<Rightarrow> fault + Pass" where
  "record_call debug gpu c st =
     (case c of
        call_op r x \<Rightarrow>
          (case get_pass st r of
             Inl e \<Rightarrow> Inl e
           | Inr p \<Rightarrow> (case record_op debug gpu x p of
                         Inl e \<Rightarrow> Inl e
                       | Inr p1 \<Rightarrow> put_pass st r p1))
      | call_sub r name \<Rightarrow>
          (case sub name r st of Inl e \<Rightarrow> Inl e | Inr res \<Rightarrow> Inr (fst res)))"

fun record_calls :: "bool \<Rightarrow> GPU \<Rightarrow> call list \<Rightarrow> Pass \<Rightarrow> fault + Pass" where
  "record_calls debug gpu [] st = Inr st"
| "record_calls debug gpu (c # cs) st =
     (case record_call debug gpu c st of
        Inl e \<Rightarrow> Inl e
      | Inr st1 \<Rightarrow> record_calls debug gpu cs st1)"

subsection \<open>Submission\<close>

text \<open>
  What submission acts on: \<open>execute\<close> is the \<^verbatim>\<open>execute\<close> routine of the command member that
  the header's type selects, \<open>'s\<close> the recording state together with the GPU context.
  These routines are not among the sources.
\<close>

record 's device =
  execute :: "command_Type \<Rightarrow> Undetermined \<Rightarrow> 's \<Rightarrow> 's"
  GPU_debug_group_begin :: "string \<Rightarrow> 's \<Rightarrow> 's"
  GPU_debug_group_end :: "'s \<Rightarrow> 's"

text \<open>
  \<^verbatim>\<open>PassBase::submit\<close> and its loop over the headers. The recursion goes through the
  container and so has no structural bound: the first argument is the number of nested
  \<^verbatim>\<open>submit\<close> calls allowed, and \<open>None\<close> says that it was not enough. Every case of the
  \<^verbatim>\<open>switch\<close> other than \<^verbatim>\<open>None\<close> and \<^verbatim>\<open>SubPass\<close> executes \<^verbatim>\<open>commands_[header.index]\<close>.
\<close>

fun submit ::
    "nat \<Rightarrow> 's device \<Rightarrow> PassBase SubPassVector \<Rightarrow> PassBase \<Rightarrow> 's \<Rightarrow> (fault + 's) option"
  and submit_headers ::
    "nat \<Rightarrow> 's device \<Rightarrow> PassBase SubPassVector \<Rightarrow> Undetermined list \<Rightarrow> Header list \<Rightarrow> 's
       \<Rightarrow> (fault + 's) option" where
  "submit 0 dev sp p s = None"
| "submit (Suc n) dev sp p s =
     (case submit_headers n dev sp (commands p) (headers p)
             (GPU_debug_group_begin dev (debug_name p) s) of
        None \<Rightarrow> None
      | Some (Inl e) \<Rightarrow> Some (Inl e)
      | Some (Inr s1) \<Rightarrow> Some (Inr (GPU_debug_group_end dev s1)))"
| "submit_headers n dev sp cs [] s = Some (Inr s)"
| "submit_headers n dev sp cs (h # hs) s =
     (if header_type h = Type_None then submit_headers n dev sp cs hs s
      else if header_type h = Type_SubPass then
        (case spv_get sub_pass_block_size sp (unat (header_index h)) of
           Inl e \<Rightarrow> Some (Inl e)
         | Inr q \<Rightarrow>
             (case submit n dev sp q s of
                None \<Rightarrow> None
              | Some (Inl e) \<Rightarrow> Some (Inl e)
              | Some (Inr s1) \<Rightarrow> submit_headers n dev sp cs hs s1))
      else if unat (header_index h) < length cs
        then submit_headers n dev sp cs hs (execute dev (header_type h) (cs ! unat (header_index h)) s)
        else Some (Inl OutOfBounds))"

subsection \<open>Serialization\<close>

text \<open>
  The \<^verbatim>\<open>serialize\<close> routines of the command members are not among the sources:
  \<open>cmd_serialize\<close> is the one the header's type selects, \<open>draw_multi_serialize\<close> the one
  of \<^verbatim>\<open>DrawMulti\<close>, which takes the line prefix and writes its own lines.
\<close>

record serializers =
  cmd_serialize :: "command_Type \<Rightarrow> Undetermined \<Rightarrow> string"
  draw_multi_serialize :: "Undetermined \<Rightarrow> string \<Rightarrow> string"

definition endl :: string where
  "endl = [CHR 0x0A]"

text \<open>
  \<^verbatim>\<open>PassBase::serialize\<close>, with the bound on nested calls as in \<open>submit\<close>. \<open>ss\<close> is the
  string stream, \<open>line_prefix\<close> the prefix after \<^verbatim>\<open>line_prefix += "  "\<close>.
\<close>

fun serialize ::
    "nat \<Rightarrow> serializers \<Rightarrow> PassBase SubPassVector \<Rightarrow> PassBase \<Rightarrow> string \<Rightarrow> (fault + string) option"
  and serialize_headers ::
    "nat \<Rightarrow> serializers \<Rightarrow> PassBase SubPassVector \<Rightarrow> Undetermined list \<Rightarrow> Header list \<Rightarrow> string
       \<Rightarrow> string \<Rightarrow> (fault + string) option" where
  "serialize 0 ser sp p line_prefix = None"
| "serialize (Suc n) ser sp p line_prefix =
     serialize_headers n ser sp (commands p) (headers p) (line_prefix @ ''  '')
       (line_prefix @ ''.'' @ debug_name p @ endl)"
| "serialize_headers n ser sp cs [] line_prefix ss = Some (Inr ss)"
| "serialize_headers n ser sp cs (h # hs) line_prefix ss =
     (if header_type h = Type_None then serialize_headers n ser sp cs hs line_prefix ss
      else if header_type h = Type_SubPass then
        (case spv_get sub_pass_block_size sp (unat (header_index h)) of
           Inl e \<Rightarrow> Some (Inl e)
         | Inr q \<Rightarrow>
             (case serialize n ser sp q line_prefix of
                None \<Rightarrow> None
              | Some (Inl e) \<Rightarrow> Some (Inl e)
              | Some (Inr out) \<Rightarrow> serialize_headers n ser sp cs hs line_prefix (ss @ out)))
      else if unat (header_index h) < length cs then
        (if header_type h = Type_DrawMulti
         then serialize_headers n ser sp cs hs line_prefix
                (ss @ draw_multi_serialize ser (cs ! unat (header_index h)) line_prefix)
         else serialize_headers n ser sp cs hs line_prefix
                (ss @ line_prefix @ cmd_serialize ser (header_type h) (cs ! unat (header_index h))
                    @ endl))
      else Some (Inl OutOfBounds))"

section \<open>The sortable pass\<close>

text \<open>
  \<^verbatim>\<open>PassSortable\<close>: a root pass with a sorting value for each call of its own \<^verbatim>\<open>sub\<close>, and
  the flag \<^verbatim>\<open>sorted_\<close>.
\<close>

record PassSortable =
  pass_main :: Pass
  sorting_values :: "float list"
  sorted_flag :: bool

definition PassSortable_new :: "string \<Rightarrow> PassSortable" where
  "PassSortable_new name = \<lparr>pass_main = Pass_new name, sorting_values = [], sorted_flag = False\<rparr>"

definition PassSortable_init :: "PassSortable \<Rightarrow> PassSortable" where
  "PassSortable_init ps =
     \<lparr>pass_main = Pass_init (pass_main ps), sorting_values = [], sorted_flag = False\<rparr>"

definition PassSortable_sub :: "string \<Rightarrow> float \<Rightarrow> PassSortable \<Rightarrow> PassSortable \<times> pass_ref" where
  "PassSortable_sub name sorting_value ps =
     (let st = pass_main ps;
          p = root_pass st;
          (blocks, index) =
             append_and_get_index sub_pass_block_size (PassBase_new name (shader p))
               (sub_passes_main st);
          p1 = p\<lparr>headers := headers p @
                   [\<lparr>header_type = Type_SubPass, header_index = of_nat index\<rparr>]\<rparr>
      in (ps\<lparr>pass_main := \<lparr>root_pass = p1, sub_passes_main = blocks\<rparr>,
             sorting_values := sorting_values ps @ [sorting_value]\<rparr>,
          Sub index))"

text \<open>
  A call that records into a sortable pass: its own \<^verbatim>\<open>sub\<close> with a name and a sorting
  value, or a command recorded into the sub-pass at a position of the container, through
  the reference that \<^verbatim>\<open>sub\<close> returned. (A sortable pass holds no commands of its own.)
\<close>

datatype sortable_call = sortable_sub string float | sortable_op nat op

definition PassSortable_call ::
  "bool \<Rightarrow> GPU \<Rightarrow> sortable_call \<Rightarrow> PassSortable \<Rightarrow> fault + PassSortable" where
  "PassSortable_call debug gpu c ps =
     (case c of
        sortable_sub name sorting_value \<Rightarrow> Inr (fst (PassSortable_sub name sorting_value ps))
      | sortable_op i x \<Rightarrow>
          (case record_call debug gpu (call_op (Sub i) x) (pass_main ps) of
             Inl e \<Rightarrow> Inl e
           | Inr st \<Rightarrow> Inr (ps\<lparr>pass_main := st\<rparr>)))"

fun PassSortable_calls ::
  "bool \<Rightarrow> GPU \<Rightarrow> sortable_call list \<Rightarrow> PassSortable \<Rightarrow> fault + PassSortable" where
  "PassSortable_calls debug gpu [] ps = Inr ps"
| "PassSortable_calls debug gpu (c # cs) ps =
     (case PassSortable_call debug gpu c ps of
        Inl e \<Rightarrow> Inl e
      | Inr ps1 \<Rightarrow> PassSortable_calls debug gpu cs ps1)"

text \<open>The sorting values of the sub-passes that a sequence of calls adds, in order.\<close>

fun added_values :: "sortable_call list \<Rightarrow> float list" where
  "added_values [] = []"
| "added_values (sortable_sub name sorting_value # cs) = sorting_value # added_values cs"
| "added_values (sortable_op i x # cs) = added_values cs"

text \<open>
  The comparison of \<^verbatim>\<open>PassSortable::sort\<close>, after its \<^verbatim>\<open>BLI_assert\<close> on the two header
  types (which is part of \<open>PassSortable_sort\<close> below).
\<close>

definition sort_less :: "float list \<Rightarrow> Header \<Rightarrow> Header \<Rightarrow> bool" where
  "sort_less values a b =
     (let a_val = values ! unat (header_index a);
          b_val = values ! unat (header_index b)
      in a_val < b_val \<or> (a_val = b_val \<and> header_index a < header_index b))"

text \<open>
  \<^verbatim>\<open>std::sort\<close> by a comparison, as insertion into a sorted list. The library promises a
  permutation in which no element is less than one before it, and no more.
\<close>

fun insort_by :: "('a \<Rightarrow> 'a \<Rightarrow> bool) \<Rightarrow> 'a \<Rightarrow> 'a list \<Rightarrow> 'a list" where
  "insort_by lt x [] = [x]"
| "insort_by lt x (y # ys) = (if lt y x then y # insort_by lt x ys else x # y # ys)"

definition std_sort :: "('a \<Rightarrow> 'a \<Rightarrow> bool) \<Rightarrow> 'a list \<Rightarrow> 'a list" where
  "std_sort lt xs = foldr (insort_by lt) xs []"

text \<open>
  \<^verbatim>\<open>PassSortable::sort\<close>. Sorting two or more headers compares every one of them; a
  comparison first asserts that both headers are sub-pass headers (in a debug build) and
  then reads \<^verbatim>\<open>sorting_values_[header.index]\<close>.
\<close>

definition PassSortable_sort :: "bool \<Rightarrow> PassSortable \<Rightarrow> fault + PassSortable" where
  "PassSortable_sort debug ps =
     (if sorted_flag ps = False then
        (let hs = headers (root_pass (pass_main ps)) in
         if 2 \<le> length hs \<and> debug \<and> list_ex (\<lambda>h. header_type h \<noteq> Type_SubPass) hs
         then Inl AssertFailed
         else if 2 \<le> length hs \<and>
            list_ex (\<lambda>h. \<not> unat (header_index h) < length (sorting_values ps)) hs
         then Inl OutOfBounds
         else Inr (ps\<lparr>pass_main := (pass_main ps)\<lparr>root_pass := (root_pass (pass_main ps))
                        \<lparr>headers := std_sort (sort_less (sorting_values ps)) hs\<rparr>\<rparr>,
                      sorted_flag := True\<rparr>))
      else Inr ps)"

text \<open>
  \<^verbatim>\<open>PassSortable::serialize\<close> sorts through a \<^verbatim>\<open>const_cast\<close>, so it returns the pass as well
  as the text.
\<close>

definition PassSortable_serialize ::
  "bool \<Rightarrow> nat \<Rightarrow> serializers \<Rightarrow> PassSortable \<Rightarrow> string
     \<Rightarrow> fault + PassSortable \<times> (fault + string) option" where
  "PassSortable_serialize debug n ser ps line_prefix =
     (case (if sorted_flag ps = False then PassSortable_sort debug ps else Inr ps) of
        Inl e \<Rightarrow> Inl e
      | Inr ps1 \<Rightarrow>
          Inr (ps1, serialize n ser (sub_passes_main (pass_main ps1)) (root_pass (pass_main ps1))
                      line_prefix))"

section \<open>Recorded trees, replay order and header bounds\<close>

text \<open>
  The tree that a pass records, as the spec describes it: a pass is a name and a sequence
  of items in the order of its headers, an item being a command with its payload, a
  placeholder, or a nested sub-pass.
\<close>

datatype pass_item = Command command_Type Undetermined | Placeholder | SubTree string "pass_item list"

text \<open>
  \<open>recorded_items sp cs hs items\<close>: the headers \<open>hs\<close>, over the commands \<open>cs\<close> and the
  container \<open>sp\<close>, record \<open>items\<close>, header by header.
\<close>

inductive recorded_items ::
  "PassBase SubPassVector \<Rightarrow> Undetermined list \<Rightarrow> Header list \<Rightarrow> pass_item list \<Rightarrow> bool" where
  rec_Nil: "recorded_items sp cs [] []"
| rec_None:
    "header_type h = Type_None \<Longrightarrow> recorded_items sp cs hs items
       \<Longrightarrow> recorded_items sp cs (h # hs) (Placeholder # items)"
| rec_SubPass:
    "header_type h = Type_SubPass
       \<Longrightarrow> spv_get sub_pass_block_size sp (unat (header_index h)) = Inr q
       \<Longrightarrow> recorded_items sp (commands q) (headers q) sub_items
       \<Longrightarrow> recorded_items sp cs hs items
       \<Longrightarrow> recorded_items sp cs (h # hs) (SubTree (debug_name q) sub_items # items)"
| rec_Command:
    "header_type h \<noteq> Type_None \<Longrightarrow> header_type h \<noteq> Type_SubPass
       \<Longrightarrow> unat (header_index h) < length cs
       \<Longrightarrow> recorded_items sp cs hs items
       \<Longrightarrow> recorded_items sp cs (h # hs)
             (Command (header_type h) (cs ! unat (header_index h)) # items)"

text \<open>
  The depth-first order of the spec: the items of a pass one after the other, a sub-pass
  whole (between the two marks of its debug group) at the place of its item, nothing for a
  placeholder.
\<close>

datatype event = Group_begin string | Execute command_Type Undetermined | Group_end

fun item_events :: "pass_item \<Rightarrow> event list" where
  "item_events (Command t c) = [Execute t c]"
| "item_events Placeholder = []"
| "item_events (SubTree name items) = Group_begin name # concat (map item_events items) @ [Group_end]"

definition replay_event :: "'s device \<Rightarrow> event \<Rightarrow> 's \<Rightarrow> 's" where
  "replay_event dev ev s =
     (case ev of
        Group_begin name \<Rightarrow> GPU_debug_group_begin dev name s
      | Execute t c \<Rightarrow> execute dev t c s
      | Group_end \<Rightarrow> GPU_debug_group_end dev s)"

definition replay :: "'s device \<Rightarrow> event list \<Rightarrow> 's \<Rightarrow> 's" where
  "replay dev evs s = fold (replay_event dev) evs s"

text \<open>A device that only logs what it is asked to do.\<close>

definition log_device :: "event list device" where
  "log_device =
     \<lparr>execute = (\<lambda>t c s. s @ [Execute t c]),
      GPU_debug_group_begin = (\<lambda>name s. s @ [Group_begin name]),
      GPU_debug_group_end = (\<lambda>s. s @ [Group_end])\<rparr>"

text \<open>
  The text of a tree as the spec describes it: one line for the pass and for each command,
  a sub-pass one indentation step deeper. A line is its depth and its text; a \<^verbatim>\<open>DrawMulti\<close>
  command writes its own lines from the prefix of its depth.
\<close>

datatype line = Line nat string | Multi_lines nat Undetermined

fun item_lines :: "serializers \<Rightarrow> nat \<Rightarrow> pass_item \<Rightarrow> line list" where
  "item_lines ser d (Command t c) =
     (if t = Type_DrawMulti then [Multi_lines d c] else [Line d (cmd_serialize ser t c)])"
| "item_lines ser d Placeholder = []"
| "item_lines ser d (SubTree name items) =
     Line d (''.'' @ name) # concat (map (item_lines ser (Suc d)) items)"

definition indentation :: "nat \<Rightarrow> string" where
  "indentation d = concat (replicate d ''  '')"

definition render_line :: "serializers \<Rightarrow> string \<Rightarrow> line \<Rightarrow> string" where
  "render_line ser line_prefix l =
     (case l of
        Line d text \<Rightarrow> line_prefix @ indentation d @ text @ endl
      | Multi_lines d c \<Rightarrow> draw_multi_serialize ser c (line_prefix @ indentation d))"

definition render :: "serializers \<Rightarrow> string \<Rightarrow> line list \<Rightarrow> string" where
  "render ser line_prefix ls = concat (map (render_line ser line_prefix) ls)"

text \<open>
  Header bounds. \<open>header_ok n_sub n_cmd h\<close>: a sub-pass header indexes the container of
  \<open>n_sub\<close> elements, any other header the \<open>n_cmd\<close> commands of its pass.
\<close>

definition header_ok :: "nat \<Rightarrow> nat \<Rightarrow> Header \<Rightarrow> bool" where
  "header_ok n_sub n_cmd h =
     (if header_type h = Type_SubPass then unat (header_index h) < n_sub
      else unat (header_index h) < n_cmd)"

definition pass_base_ok :: "nat \<Rightarrow> PassBase \<Rightarrow> bool" where
  "pass_base_ok n_sub p = list_all (header_ok n_sub (length (commands p))) (headers p)"

definition pass_ok :: "Pass \<Rightarrow> bool" where
  "pass_ok st =
     (spv_inv sub_pass_block_size (sub_passes_main st) \<and>
      pass_base_ok (length (concat (sub_passes_main st))) (root_pass st) \<and>
      list_all (pass_base_ok (length (concat (sub_passes_main st)))) (concat (sub_passes_main st)))"

text \<open>
  The sub-pass headers of the element at position \<open>j\<close> refer to elements appended after
  it: \<open>sub_above lo p\<close> with \<open>lo = j + 1\<close>.
\<close>

definition sub_above :: "nat \<Rightarrow> PassBase \<Rightarrow> bool" where
  "sub_above lo p =
     list_all (\<lambda>h. header_type h = Type_SubPass \<longrightarrow> lo \<le> unat (header_index h)) (headers p)"

definition pass_ordered :: "Pass \<Rightarrow> bool" where
  "pass_ordered st =
     (pass_ok st \<and>
      list_all (\<lambda>jp. sub_above (Suc (fst jp)) (snd jp))
        (zip [0 ..< length (concat (sub_passes_main st))] (concat (sub_passes_main st))))"

text \<open>
  \<open>appended p p1\<close>: \<open>p1\<close> is \<open>p\<close> with headers and commands appended, none of the new
  headers a sub-pass header, each of them indexing a command of \<open>p1\<close>.
\<close>

definition appended :: "PassBase \<Rightarrow> PassBase \<Rightarrow> bool" where
  "appended p p1 =
     (debug_name p1 = debug_name p \<and>
      (\<exists>hs cs. headers p1 = headers p @ hs \<and> commands p1 = commands p @ cs \<and>
         list_all (\<lambda>h. header_type h \<noteq> Type_SubPass \<and>
                       unat (header_index h) < length (commands p) + length cs) hs))"

section \<open>Example inputs\<close>

definition idmap_example :: BMIdMap where
  "idmap_example =
     \<lparr>flag = 0, maxid = 3, cd_id_off = replicate 15 4, bm = 0,
      idmap = [None, Some 10, Some 20], map_size = 3, freelist = [], free_idx_map = None\<rparr>"

definition mem_example :: "BMElem_ptr \<Rightarrow> BMElem" where
  "mem_example a = \<lparr>head_htype = 1, head_data = (\<lambda>off. if a = 30 \<or> a = 20 then 2 else 1)\<rparr>"

definition gpu_example :: GPU where
  "gpu_example =
     \<lparr>GPU_shader_get_uniform = (\<lambda>sh name. 7),
      GPU_shader_get_ssbo = (\<lambda>sh name. 1),
      GPU_shader_get_uniform_block_binding = (\<lambda>sh name. 2),
      GPU_shader_get_texture_binding = (\<lambda>sh name. 3),
      drw_cache_procedural_points_get = 100,
      drw_cache_procedural_lines_get = 101,
      drw_cache_procedural_triangles_get = 102,
      drw_cache_procedural_triangle_strips_get = 103,
      GPU_SAMPLER_MAX = 255,
      GPU_UBO_BLOCK_NAME = ''node_tree''\<rparr>"

definition pass_example :: PassBase where
  "pass_example = PassBase_new ''p'' (Some 1)"

definition sortable_calls_example :: "sortable_call list" where
  "sortable_calls_example =
     [sortable_sub ''a'' 5, sortable_op 0 (op_barrier 1), sortable_sub ''b'' 1,
      sortable_sub ''c'' 5]"

definition sortable_example :: PassSortable where
  "sortable_example =
     \<lparr>pass_main =
        \<lparr>root_pass =
           \<lparr>headers =
              [\<lparr>header_type = Type_SubPass, header_index = 0\<rparr>,
               \<lparr>header_type = Type_SubPass, header_index = 1\<rparr>,
               \<lparr>header_type = Type_SubPass, header_index = 2\<rparr>],
            commands = [], shader = None, debug_name = ''t''\<rparr>,
         sub_passes_main =
           [[\<lparr>headers = [\<lparr>header_type = Type_Barrier, header_index = 0\<rparr>],
              commands = [barrier_cmd 1], shader = None, debug_name = ''a''\<rparr>,
             \<lparr>headers = [], commands = [], shader = None, debug_name = ''b''\<rparr>,
             \<lparr>headers = [], commands = [], shader = None, debug_name = ''c''\<rparr>]]\<rparr>,
      sorting_values = [5, 1, 5], sorted_flag = False\<rparr>"

definition nested_example :: PassSortable where
  "nested_example =
     \<lparr>pass_main =
        \<lparr>root_pass =
           \<lparr>headers =
              [\<lparr>header_type = Type_SubPass, header_index = 0\<rparr>,
               \<lparr>header_type = Type_SubPass, header_index = 2\<rparr>],
            commands = [], shader = None, debug_name = ''t''\<rparr>,
         sub_passes_main =
           [[\<lparr>headers = [\<lparr>header_type = Type_SubPass, header_index = 1\<rparr>],
              commands = [], shader = None, debug_name = ''a''\<rparr>,
             \<lparr>headers = [], commands = [], shader = None, debug_name = ''nested''\<rparr>,
             \<lparr>headers = [], commands = [], shader = None, debug_name = ''b''\<rparr>]]\<rparr>,
      sorting_values = [5, 1], sorted_flag = False\<rparr>"

definition calls_example :: "call list" where
  "calls_example =
     [call_op Root (op_shader_set (Some 1)),
      call_sub Root ''inner'',
      call_op (Sub 0) (op_barrier 3),
      call_op Root (op_barrier 4)]"

definition inner_example :: PassBase where
  "inner_example =
     \<lparr>headers = [\<lparr>header_type = Type_Barrier, header_index = 0\<rparr>],
      commands = [barrier_cmd 3], shader = Some 1, debug_name = ''inner''\<rparr>"

definition st_example :: Pass where
  "st_example =
     \<lparr>root_pass =
        \<lparr>headers =
           [\<lparr>header_type = Type_ShaderBind, header_index = 0\<rparr>,
            \<lparr>header_type = Type_SubPass, header_index = 0\<rparr>,
            \<lparr>header_type = Type_Barrier, header_index = 1\<rparr>],
         commands = [shader_bind_cmd 1, barrier_cmd 4], shader = Some 1,
         debug_name = ''main''\<rparr>,
      sub_passes_main = [[inner_example]]\<rparr>"

definition ser_example :: serializers where
  "ser_example =
     \<lparr>cmd_serialize = (\<lambda>t c. ''cmd''),
      draw_multi_serialize = (\<lambda>c line_prefix. line_prefix @ ''multi'' @ endl)\<rparr>"

section \<open>Properties of the identifier map\<close>

lemma BM_idmap_lookup_negative: "elem < 0 \<Longrightarrow> BM_idmap_lookup m elem = Inr None"
  by (simp add: BM_idmap_lookup_def)

lemma BM_idmap_lookup_in_range:
  "0 \<le> elem \<Longrightarrow> nat elem < length (idmap m) \<Longrightarrow> BM_idmap_lookup m elem = Inr (idmap m ! nat elem)"
  by (simp add: BM_idmap_lookup_def)

lemma BM_idmap_lookup_past_end:
  "0 \<le> elem \<Longrightarrow> length (idmap m) \<le> nat elem \<Longrightarrow> BM_idmap_lookup m elem = Inl OutOfBounds"
  by (simp add: BM_idmap_lookup_def)

text \<open>
  C3. A lookup with a negative id returns null (\<open>BM_idmap_lookup_negative\<close>), but an id
  that is not below the size of the array is not tested: on a map of size 2, the lookup of
  id 2 reads the array past its end.
\<close>

theorem BM_idmap_lookup_at_map_size_faults:
  "BM_idmap_lookup
     \<lparr>flag = 0, maxid = 2, cd_id_off = replicate 15 0, bm = 0, idmap = [None, Some 7],
      map_size = 2, freelist = [], free_idx_map = None\<rparr> 2 = Inl OutOfBounds"
  by (simp add: BM_idmap_lookup_def)

text \<open>
  C7. When an element whose stored id lies in \<open>[0, map_size)\<close> is reported as moved, the
  notification succeeds; afterwards the lookup of that id returns the new pointer, the id
  stored in the element is the same, and the lookup of every other id gives what it gave
  before.
\<close>

theorem BM_idmap_on_elem_moved_repoints:
  assumes ok: "idmap_ok m"
    and ht: "head_htype (mem new_elem) < 15"
    and stored: "BM_idmap_get_id m (mem new_elem) = Inr eid"
    and range: "0 \<le> eid" "eid < map_size m"
  shows "\<exists>m1. BM_idmap_on_elem_moved mem m old_elem new_elem = Inr m1
           \<and> BM_idmap_lookup m1 eid = Inr (Some new_elem)
           \<and> BM_idmap_get_id m1 (mem new_elem) = Inr eid
           \<and> map_size m1 = map_size m
           \<and> (\<forall>j. j \<noteq> eid \<longrightarrow> BM_idmap_lookup m1 j = BM_idmap_lookup m j)"
proof -
  from ok ht have off: "id_offset m (mem new_elem) = Inr (cd_id_off m ! head_htype (mem new_elem))"
    by (simp add: idmap_ok_def id_offset_def)
  with stored have idv: "BM_ELEM_CD_GET_INT (mem new_elem) (cd_id_off m ! head_htype (mem new_elem)) = eid"
    by (simp add: BM_idmap_get_id_def)
  from ok range have lt: "nat eid < length (idmap m)"
    by (simp add: idmap_ok_def)
  let ?m1 = "m\<lparr>idmap := (idmap m)[nat eid := Some new_elem]\<rparr>"
  have moved: "BM_idmap_on_elem_moved mem m old_elem new_elem = Inr ?m1"
    using off idv range lt by (simp add: BM_idmap_on_elem_moved_def)
  have look: "BM_idmap_lookup ?m1 eid = Inr (Some new_elem)"
    using range lt by (simp add: BM_idmap_lookup_def)
  have getid: "BM_idmap_get_id ?m1 (mem new_elem) = Inr eid"
    using stored ok ht by (simp add: BM_idmap_get_id_def id_offset_def idmap_ok_def)
  have others: "\<forall>j. j \<noteq> eid \<longrightarrow> BM_idmap_lookup ?m1 j = BM_idmap_lookup m j"
  proof (intro allI impI)
    fix j :: int
    assume "j \<noteq> eid"
    with range have "0 \<le> j \<Longrightarrow> nat j \<noteq> nat eid" by simp
    then show "BM_idmap_lookup ?m1 j = BM_idmap_lookup m j"
      by (auto simp add: BM_idmap_lookup_def)
  qed
  show ?thesis using moved look getid others by simp
qed

theorem BM_idmap_on_elem_moved_repoints_witness:
  "\<exists>m1. BM_idmap_on_elem_moved mem_example idmap_example 20 30 = Inr m1
     \<and> BM_idmap_lookup m1 2 = Inr (Some 30)
     \<and> BM_idmap_lookup m1 1 = Inr (Some 10)"
proof -
  have ok: "idmap_ok idmap_example" by (simp add: idmap_ok_def idmap_example_def)
  have ht: "head_htype (mem_example 30) < 15" by (simp add: mem_example_def)
  have stored: "BM_idmap_get_id idmap_example (mem_example 30) = Inr 2"
    by (simp add: BM_idmap_get_id_def id_offset_def BM_ELEM_CD_GET_INT_def
        idmap_example_def mem_example_def)
  have r: "(0::int) \<le> 2" "2 < map_size idmap_example" by (simp_all add: idmap_example_def)
  from BM_idmap_on_elem_moved_repoints
    [where m = idmap_example and mem = mem_example and new_elem = 30 and eid = 2
       and old_elem = 20, OF ok ht stored r]
  obtain m1 where m1: "BM_idmap_on_elem_moved mem_example idmap_example 20 30 = Inr m1"
    "BM_idmap_lookup m1 2 = Inr (Some 30)"
    "\<forall>j. j \<noteq> 2 \<longrightarrow> BM_idmap_lookup m1 j = BM_idmap_lookup idmap_example j"
    by blast
  from m1(3) have "BM_idmap_lookup m1 1 = BM_idmap_lookup idmap_example 1" by simp
  also have "\<dots> = Inr (Some 10)" by (simp add: BM_idmap_lookup_def idmap_example_def)
  finally show ?thesis using m1(1,2) by blast
qed

section \<open>Properties of the sub-pass container\<close>

lemma spv_inv_Nil: "spv_inv bs []"
  by (simp add: spv_inv_def)

lemma spv_inv_Cons:
  "spv_inv bs (b # rest) \<longleftrightarrow>
     (if rest = [] then 0 < length b \<and> length b \<le> bs else length b = bs \<and> spv_inv bs rest)"
  by (auto simp add: spv_inv_def)

lemma spv_length_concat:
  "spv_inv bs blocks \<Longrightarrow> blocks \<noteq> [] \<Longrightarrow>
     length (concat blocks) = (length blocks - 1) * bs + length (last blocks)"
proof (induction blocks)
  case Nil
  then show ?case by simp
next
  case (Cons b rest)
  show ?case
  proof (cases "rest = []")
    case True
    then show ?thesis by simp
  next
    case False
    with Cons.prems have len: "length b = bs" and inv: "spv_inv bs rest"
      by (simp_all add: spv_inv_Cons)
    from False obtain k where k: "length rest = Suc k"
      by (cases rest) simp_all
    from Cons.IH [OF inv False] k len False show ?thesis by simp
  qed
qed

lemma spv_coords:
  "spv_inv bs blocks \<Longrightarrow> 0 < bs \<Longrightarrow> i < length (concat blocks) \<Longrightarrow>
     i div bs < length blocks \<and> i mod bs < length (blocks ! (i div bs)) \<and>
     blocks ! (i div bs) ! (i mod bs) = concat blocks ! i"
proof (induction blocks arbitrary: i)
  case Nil
  then show ?case by simp
next
  case (Cons b rest)
  show ?case
  proof (cases "rest = []")
    case True
    with Cons.prems have "i < bs" "i < length b" by (simp_all add: spv_inv_Cons)
    with True show ?thesis by simp
  next
    case False
    with Cons.prems have len: "length b = bs" and inv: "spv_inv bs rest"
      by (simp_all add: spv_inv_Cons)
    show ?thesis
    proof (cases "i < bs")
      case True
      with len show ?thesis by (simp add: nth_append)
    next
      case ge: False
      then have i: "i = (i - bs) + bs" by simp
      from ge Cons.prems len have "i - bs < length (concat rest)" by simp
      from Cons.IH [OF inv Cons.prems(2) this]
      have ih: "(i - bs) div bs < length rest"
        "(i - bs) mod bs < length (rest ! ((i - bs) div bs))"
        "rest ! ((i - bs) div bs) ! ((i - bs) mod bs) = concat rest ! (i - bs)"
        by simp_all
      from ge Cons.prems(2) have d: "i div bs = Suc ((i - bs) div bs)"
        by (simp add: le_div_geq)
      from ge have m: "i mod bs = (i - bs) mod bs"
        by (simp add: le_mod_geq)
      from ih d m len ge show ?thesis by (simp add: nth_append)
    qed
  qed
qed

lemma spv_get_concat:
  "spv_inv bs blocks \<Longrightarrow> 0 < bs \<Longrightarrow> i < length (concat blocks) \<Longrightarrow>
     spv_get bs blocks i = Inr (concat blocks ! i)"
  using spv_coords [of bs blocks i] by (simp add: spv_get_def)

lemma spv_coords_out:
  "spv_inv bs blocks \<Longrightarrow> 0 < bs \<Longrightarrow> length (concat blocks) \<le> i \<Longrightarrow>
     \<not> (i div bs < length blocks \<and> i mod bs < length (blocks ! (i div bs)))"
proof (induction blocks arbitrary: i)
  case Nil
  then show ?case by simp
next
  case (Cons b rest)
  show ?case
  proof (cases "rest = []")
    case True
    with Cons.prems have "length b \<le> bs" "length b \<le> i" by (simp_all add: spv_inv_Cons)
    with True Cons.prems(2) show ?thesis
      by (cases "i < bs") (auto simp add: div_eq_0_iff)
  next
    case False
    with Cons.prems have len: "length b = bs" and inv: "spv_inv bs rest"
      by (simp_all add: spv_inv_Cons)
    from Cons.prems len have ge: "bs \<le> i" and rest: "length (concat rest) \<le> i - bs" by simp_all
    then have i: "i = (i - bs) + bs" by simp
    from ge Cons.prems(2) have d: "i div bs = Suc ((i - bs) div bs)"
      by (simp add: le_div_geq)
    from ge have m: "i mod bs = (i - bs) mod bs"
      by (simp add: le_mod_geq)
    from Cons.IH [OF inv Cons.prems(2) rest] d m show ?thesis by simp
  qed
qed

lemma spv_get_out:
  "spv_inv bs blocks \<Longrightarrow> 0 < bs \<Longrightarrow> length (concat blocks) \<le> i \<Longrightarrow>
     spv_get bs blocks i = Inl OutOfBounds"
  using spv_coords_out [of bs blocks i] by (simp add: spv_get_def)

lemma concat_update_block:
  "k < length blocks \<Longrightarrow> j < length (blocks ! k) \<Longrightarrow>
     concat (blocks[k := (blocks ! k)[j := x]]) = (concat blocks)[length (concat (take k blocks)) + j := x]"
proof (induction blocks arbitrary: k)
  case Nil
  then show ?case by simp
next
  case (Cons b rest)
  then show ?case
    by (cases k) (simp_all add: list_update_append)
qed

lemma spv_inv_update_block:
  "spv_inv bs blocks \<Longrightarrow> k < length blocks \<Longrightarrow>
     spv_inv bs (blocks[k := (blocks ! k)[j := x]])"
proof (induction blocks arbitrary: k)
  case Nil
  then show ?case by simp
next
  case (Cons b rest)
  then show ?case
    by (cases k) (auto simp add: spv_inv_Cons split: if_splits)
qed

lemma spv_take_full:
  "spv_inv bs blocks \<Longrightarrow> k < length blocks \<Longrightarrow> length (concat (take k blocks)) = k * bs"
proof (induction blocks arbitrary: k)
  case Nil
  then show ?case by simp
next
  case (Cons b rest)
  then show ?case
    by (cases k) (auto simp add: spv_inv_Cons split: if_splits)
qed

lemma spv_set_concat:
  assumes "spv_inv bs blocks" "0 < bs" "i < length (concat blocks)"
  shows "\<exists>blocks1. spv_set bs blocks i x = Inr blocks1 \<and> spv_inv bs blocks1
           \<and> concat blocks1 = (concat blocks)[i := x]"
proof -
  from spv_coords [OF assms]
  have c: "i div bs < length blocks" "i mod bs < length (blocks ! (i div bs))" by simp_all
  let ?b1 = "blocks[i div bs := (blocks ! (i div bs))[i mod bs := x]]"
  have "spv_set bs blocks i x = Inr ?b1" using c by (simp add: spv_set_def)
  moreover have "spv_inv bs ?b1" using assms(1) c(1) by (rule spv_inv_update_block)
  moreover have "concat ?b1 = (concat blocks)[i := x]"
    using concat_update_block [OF c] spv_take_full [OF assms(1) c(1)] by simp
  ultimately show ?thesis by blast
qed

lemma spv_set_out:
  "spv_inv bs blocks \<Longrightarrow> 0 < bs \<Longrightarrow> length (concat blocks) \<le> i \<Longrightarrow>
     spv_set bs blocks i x = Inl OutOfBounds"
  using spv_coords_out [of bs blocks i] by (simp add: spv_set_def)

lemma concat_append_and_get_index:
  "concat (fst (append_and_get_index bs x blocks)) = concat blocks @ [x]"
proof (cases "blocks = [] \<or> length (last blocks) = bs")
  case True
  then show ?thesis by (simp add: append_and_get_index_def Let_def)
next
  case False
  then have "blocks = butlast blocks @ [last blocks]" by simp
  then have "concat blocks = concat (butlast blocks) @ last blocks"
    by (metis concat.simps(1,2) concat_append append_Nil2)
  with False show ?thesis by (simp add: append_and_get_index_def Let_def)
qed

lemma in_set_butlast_or_last:
  "b \<in> set blocks \<Longrightarrow> b \<in> set (butlast blocks) \<or> b = last blocks"
  by (induction blocks) (auto split: if_splits)

lemma spv_inv_snoc_new:
  "spv_inv bs blocks \<Longrightarrow> 0 < bs \<Longrightarrow> (blocks = [] \<or> length (last blocks) = bs) \<Longrightarrow>
     spv_inv bs (blocks @ [[x]])"
  by (cases "blocks = []") (auto simp add: spv_inv_def dest: in_set_butlast_or_last)

lemma spv_inv_snoc_last:
  "spv_inv bs blocks \<Longrightarrow> blocks \<noteq> [] \<Longrightarrow> length (last blocks) \<noteq> bs \<Longrightarrow>
     spv_inv bs (butlast blocks @ [last blocks @ [x]])"
  by (auto simp add: spv_inv_def)

lemma spv_inv_append_and_get_index:
  "spv_inv bs blocks \<Longrightarrow> 0 < bs \<Longrightarrow> spv_inv bs (fst (append_and_get_index bs x blocks))"
  using spv_inv_snoc_new [of bs blocks x] spv_inv_snoc_last [of bs blocks x]
  by (auto simp add: append_and_get_index_def Let_def)

lemma snd_append_and_get_index:
  assumes "spv_inv bs blocks" "0 < bs"
  shows "snd (append_and_get_index bs x blocks) = length (concat blocks)"
proof (cases "blocks = [] \<or> length (last blocks) = bs")
  case True
  show ?thesis
  proof (cases blocks)
    case Nil
    then show ?thesis by (simp add: append_and_get_index_def)
  next
    case (Cons b rest)
    with True spv_length_concat [OF assms(1)]
    have "length (concat blocks) = length blocks * bs"
      by simp
    with True Cons show ?thesis by (simp add: append_and_get_index_def Let_def)
  qed
next
  case False
  then show ?thesis
    using spv_length_concat [OF assms(1)]
    by (auto simp add: append_and_get_index_def Let_def)
qed

lemma append_all_concat:
  "spv_inv bs blocks \<Longrightarrow> 0 < bs \<Longrightarrow> append_all bs xs blocks = (blocks1, idxs) \<Longrightarrow>
     spv_inv bs blocks1 \<and> concat blocks1 = concat blocks @ xs \<and>
     idxs = [length (concat blocks) ..< length (concat blocks) + length xs]"
proof (induction xs arbitrary: blocks blocks1 idxs)
  case Nil
  then show ?case by simp
next
  case (Cons x xs)
  obtain b1 i where a: "append_and_get_index bs x blocks = (b1, i)"
    by (cases "append_and_get_index bs x blocks")
  obtain b2 js where r: "append_all bs xs b1 = (b2, js)"
    by (cases "append_all bs xs b1")
  from a have b1: "b1 = fst (append_and_get_index bs x blocks)"
    and i: "i = snd (append_and_get_index bs x blocks)" by simp_all
  from Cons.prems(1,2) have inv1: "spv_inv bs b1"
    unfolding b1 by (rule spv_inv_append_and_get_index)
  have c1: "concat b1 = concat blocks @ [x]"
    unfolding b1 by (rule concat_append_and_get_index)
  from Cons.prems(1,2) have iv: "i = length (concat blocks)"
    unfolding i by (rule snd_append_and_get_index)
  from Cons.IH [OF inv1 Cons.prems(2) r]
  have ih: "spv_inv bs b2" "concat b2 = concat b1 @ xs"
    "js = [length (concat b1) ..< length (concat b1) + length xs]" by simp_all
  from Cons.prems(3) a r have res: "blocks1 = b2" "idxs = i # js" by simp_all
  from ih c1 iv res show ?case by (simp add: upt_rec)
qed

lemma block_lengths_le: "spv_inv bs blocks \<Longrightarrow> b \<in> set blocks \<Longrightarrow> length b \<le> bs"
  by (auto simp add: spv_inv_def dest: in_set_butlast_or_last)

text \<open>
  C9. From the empty container, the appends of a sequence return the indices 0, 1, 2, ... in
  order (the n-th append returns n - 1); and after any further appends every index
  returned so far still reads the element it was returned for, that element is still in
  the same block at the same offset, and no block has grown over the block size, so that no
  block was ever reallocated.
\<close>

theorem SubPassVector_append_stable:
  assumes bs: "0 < block_size"
    and run: "append_all block_size xs [] = (blocks, idxs)"
  shows "idxs = [0 ..< length xs] \<and>
         (\<forall>k < length xs. \<forall>ys.
            spv_get block_size blocks k = Inr (xs ! k) \<and>
            spv_get block_size (fst (append_all block_size ys blocks)) k = Inr (xs ! k) \<and>
            fst (append_all block_size ys blocks) ! (k div block_size) ! (k mod block_size)
              = blocks ! (k div block_size) ! (k mod block_size) \<and>
            (\<forall>b \<in> set (fst (append_all block_size ys blocks)). length b \<le> block_size))"
proof -
  from append_all_concat [OF spv_inv_Nil bs run]
  have inv: "spv_inv block_size blocks" and c: "concat blocks = xs" and i: "idxs = [0 ..< length xs]"
    by simp_all
  have "spv_get block_size blocks k = Inr (xs ! k) \<and>
        spv_get block_size (fst (append_all block_size ys blocks)) k = Inr (xs ! k) \<and>
        fst (append_all block_size ys blocks) ! (k div block_size) ! (k mod block_size)
          = blocks ! (k div block_size) ! (k mod block_size) \<and>
        (\<forall>b \<in> set (fst (append_all block_size ys blocks)). length b \<le> block_size)"
    if k: "k < length xs" for k ys
  proof -
    obtain b2 js where r: "append_all block_size ys blocks = (b2, js)"
      by (cases "append_all block_size ys blocks")
    from append_all_concat [OF inv bs r]
    have inv2: "spv_inv block_size b2" and c2: "concat b2 = xs @ ys" by (simp_all add: c)
    from k have k1: "k < length (concat blocks)" and k2: "k < length (concat b2)"
      by (simp_all add: c c2)
    from spv_coords [OF inv bs k1] spv_coords [OF inv2 bs k2] k
    have same: "b2 ! (k div block_size) ! (k mod block_size)
                  = blocks ! (k div block_size) ! (k mod block_size)"
      by (simp add: c c2 nth_append)
    from spv_get_concat [OF inv bs k1] have g1: "spv_get block_size blocks k = Inr (xs ! k)"
      by (simp add: c)
    from spv_get_concat [OF inv2 bs k2] k have g2: "spv_get block_size b2 k = Inr (xs ! k)"
      by (simp add: c2 nth_append)
    from inv2 have "\<forall>b \<in> set b2. length b \<le> block_size"
      by (blast intro: block_lengths_le)
    with same g1 g2 r show ?thesis by simp
  qed
  with i show ?thesis by blast
qed

theorem SubPassVector_append_stable_witness:
  "append_all 2 [10, 20, 30 :: nat] [] = ([[10, 20], [30]], [0, 1, 2]) \<and>
   spv_get 2 (fst (append_all 2 [40, 50] [[10, 20], [30 :: nat]])) 1 = Inr 20"
proof -
  have run: "append_all 2 [10, 20, 30 :: nat] [] = ([[10, 20], [30]], [0, 1, 2])"
    by (simp add: append_and_get_index_def)
  have bs: "0 < (2 :: nat)" by simp
  from SubPassVector_append_stable [OF bs run] have
    "1 < length [10, 20, 30 :: nat] \<longrightarrow>
       spv_get 2 (fst (append_all 2 [40, 50] [[10, 20], [30 :: nat]])) 1 = Inr ([10, 20, 30] ! 1)"
    by blast
  then have "spv_get 2 (fst (append_all 2 [40, 50] [[10, 20], [30 :: nat]])) 1 = Inr 20"
    by simp
  with run show ?thesis by (rule conjI)
qed

section \<open>Properties of recording\<close>

lemma headers_record [simp]:
  "headers (assign_command c (create_command t p)) =
     headers p @ [\<lparr>header_type = t, header_index = of_nat (length (commands p))\<rparr>]"
  by (simp add: assign_command_def create_command_def Let_def)

lemma commands_record [simp]:
  "commands (assign_command c (create_command t p)) = commands p @ [c]"
  by (simp add: assign_command_def create_command_def Let_def)

lemma shader_record [simp]:
  "shader (assign_command c (create_command t p)) = shader p"
  by (simp add: assign_command_def create_command_def Let_def)

lemma debug_name_record [simp]:
  "debug_name (assign_command c (create_command t p)) = debug_name p"
  by (simp add: assign_command_def create_command_def Let_def)

lemma draw_zero: "instance_len = 0 \<or> vertex_len = 0 \<Longrightarrow>
  draw debug batch instance_len vertex_len vertex_first handle p = Inr p"
  by (simp add: draw_def)

lemma draw_procedural_zero: "instance_len = 0 \<or> vertex_len = 0 \<Longrightarrow>
  draw_procedural debug gpu primitive instance_len vertex_len vertex_first handle p = Inr p
  \<or> draw_procedural debug gpu primitive instance_len vertex_len vertex_first handle p
      = Inl AssertFailed"
  by (cases primitive)
     (simp_all add: draw_procedural_def procedural_batch_get_def draw_def BLI_assert_def)

lemma dispatch_records:
  "dispatch debug g p = Inr p1 \<Longrightarrow>
     headers p1 = headers p @ [\<lparr>header_type = Type_Dispatch,
                                header_index = of_nat (length (commands p))\<rparr>] \<and>
     commands p1 = commands p @ [dispatch_cmd g]"
  by (auto simp add: dispatch_def BLI_assert_def split: if_splits)

lemma dispatch_succeeds:
  "\<not> debug \<or> shader p \<noteq> None \<Longrightarrow> \<exists>p1. dispatch debug g p = Inr p1"
  by (auto simp add: dispatch_def BLI_assert_def)

text \<open>
  C2, the claim as stated fails for dispatch: on a pass with a bound shader and nothing
  recorded, a dispatch of zero groups appends a header and a command.
\<close>

theorem dispatch_zero_groups_counterexample:
  "dispatch False (group_len 0 0 0)
     \<lparr>headers = [], commands = [], shader = Some 1, debug_name = ''p''\<rparr>
   = Inr \<lparr>headers = [\<lparr>header_type = Type_Dispatch, header_index = 0\<rparr>],
          commands = [dispatch_cmd (group_len 0 0 0)], shader = Some 1, debug_name = ''p''\<rparr>"
  by (simp add: dispatch_def BLI_assert_def assign_command_def create_command_def Let_def)

text \<open>
  C2, amended. A draw call with an instance count of 0 or a vertex count of 0 returns the
  pass as it was: no header, no command. The procedural draw does the same, unless its
  assertion on the primitive type stops it before. A dispatch call is recorded whatever the
  group size: when it returns, it has appended exactly one header and one command, and it
  returns whenever a shader is bound or the build is a release build.
\<close>

theorem zero_draw_dropped_dispatch_recorded:
  "(instance_len = 0 \<or> vertex_len = 0 \<longrightarrow>
      draw debug batch instance_len vertex_len vertex_first handle p = Inr p \<and>
      (draw_procedural debug gpu primitive instance_len vertex_len vertex_first handle p = Inr p
       \<or> draw_procedural debug gpu primitive instance_len vertex_len vertex_first handle p
            = Inl AssertFailed)) \<and>
   (\<forall>p1. dispatch debug g p = Inr p1 \<longrightarrow>
      headers p1 = headers p @ [\<lparr>header_type = Type_Dispatch,
                                 header_index = of_nat (length (commands p))\<rparr>] \<and>
      commands p1 = commands p @ [dispatch_cmd g]) \<and>
   (\<not> debug \<or> shader p \<noteq> None \<longrightarrow> (\<exists>p1. dispatch debug g p = Inr p1))"
  using draw_zero [of instance_len vertex_len debug batch vertex_first handle p]
    draw_procedural_zero [of instance_len vertex_len debug gpu primitive vertex_first handle p]
    dispatch_records [of debug g p] dispatch_succeeds [of debug p g]
  by blast

theorem zero_draw_dropped_dispatch_recorded_witness:
  "draw True (Some 5) 0 3 0 0 pass_example = Inr pass_example \<and>
   draw_procedural True gpu_example GPU_PRIM_TRIS 4 0 0 0 pass_example = Inr pass_example \<and>
   (\<exists>p1. dispatch True (group_len 0 0 0) pass_example = Inr p1 \<and> length (headers p1) = 1)"
proof -
  note t = zero_draw_dropped_dispatch_recorded
  have a: "draw True (Some 5) 0 3 0 0 pass_example = Inr pass_example"
    using t [of 0 3 True "Some 5" 0 0 pass_example] by simp
  have "draw_procedural True gpu_example GPU_PRIM_TRIS 4 0 0 0 pass_example = Inr pass_example
      \<or> draw_procedural True gpu_example GPU_PRIM_TRIS 4 0 0 0 pass_example = Inl AssertFailed"
    using t [of 4 0 True _ 0 0 pass_example gpu_example GPU_PRIM_TRIS] by simp
  moreover have "draw_procedural True gpu_example GPU_PRIM_TRIS 4 0 0 0 pass_example
      \<noteq> Inl AssertFailed"
    by (simp add: draw_procedural_def procedural_batch_get_def draw_def)
  ultimately have b:
    "draw_procedural True gpu_example GPU_PRIM_TRIS 4 0 0 0 pass_example = Inr pass_example"
    by blast
  have sh: "shader pass_example \<noteq> None" by (simp add: pass_example_def PassBase_new_def)
  from t [of 0 0 True None 0 0 pass_example gpu_example GPU_PRIM_TRIS "group_len 0 0 0"] sh
  obtain p1 where p1: "dispatch True (group_len 0 0 0) pass_example = Inr p1"
    and h: "headers p1 = headers pass_example @ [\<lparr>header_type = Type_Dispatch,
              header_index = of_nat (length (commands pass_example))\<rparr>]"
    by blast
  from h have "length (headers p1) = 1" by (simp add: pass_example_def PassBase_new_def)
  with a b p1 show ?thesis by blast
qed

section \<open>Properties of submission\<close>

lemma submit_headers_append:
  "submit_headers n dev sp cs (hs1 @ hs2) s =
     (case submit_headers n dev sp cs hs1 s of
        None \<Rightarrow> None
      | Some (Inl e) \<Rightarrow> Some (Inl e)
      | Some (Inr s1) \<Rightarrow> submit_headers n dev sp cs hs2 s1)"
proof (induction hs1 arbitrary: s)
  case Nil
  then show ?case by simp
next
  case (Cons h hs1)
  then show ?case by (simp split: sum.splits option.splits)
qed

lemma submit_headers_extend:
  "submit_headers n dev sp cs hs s = Some (Inr s1) \<Longrightarrow>
     submit_headers n dev sp (cs @ cs1) hs s = Some (Inr s1)"
proof (induction hs arbitrary: s)
  case Nil
  then show ?case by simp
next
  case (Cons h hs)
  then show ?case
    by (auto simp add: nth_append split: sum.splits option.splits if_splits)
qed

lemma unat_of_nat_32: "n < 2 ^ 32 \<Longrightarrow> unat (of_nat n :: 32 word) = n"
  by (simp add: unat_of_nat)

lemma unat_of_nat_32_le: "unat (of_nat n :: 32 word) \<le> n"
  by (simp add: unat_of_nat)

lemma push_constant_float4x4_result:
  assumes "shader p = Some sh"
  shows "\<exists>p1. push_constant_float4x4 gpu name data p = Inr p1 \<and>
     debug_name p1 = debug_name p \<and> shader p1 = shader p \<and>
     headers p1 = headers p @
       [\<lparr>header_type = Type_PushConstant, header_index = of_nat (length (commands p))\<rparr>,
        \<lparr>header_type = Type_None, header_index = of_nat (length (commands p) + 1)\<rparr>,
        \<lparr>header_type = Type_None, header_index = of_nat (length (commands p) + 2)\<rparr>] \<and>
     commands p1 = commands p @
       [push_constant_fields (GPU_shader_get_uniform gpu sh name) 1 16 FloatValue data,
        float4x4_overrun data 1, float4x4_overrun data 2]"
  using assms
  by (simp add: push_constant_float4x4_def push_constant_offset_def Let_def)

text \<open>
  C4. On a pass with a bound shader and room for three more 32-bit command indices, the
  \<^verbatim>\<open>float4x4\<close> overload of \<^verbatim>\<open>push_constant\<close> appends exactly three headers, a
  \<^verbatim>\<open>PushConstant\<close> and two \<^verbatim>\<open>None\<close>, with three consecutive indices, and exactly three
  command slots at these positions: the \<^verbatim>\<open>PushConstant\<close> with the matrix written at its
  value, and the two slots that the write runs over. Submitting the three headers executes
  the \<^verbatim>\<open>PushConstant\<close> once and nothing else, and so a submission of the whole pass that
  succeeded before does afterwards what it did before and then that one execution.
\<close>

theorem push_constant_float4x4_three_slots:
  assumes sh: "shader p = Some sh" and room: "length (commands p) + 2 < 2 ^ 32"
  shows "\<exists>p1 c0.
     push_constant_float4x4 gpu name data p = Inr p1 \<and>
     c0 = push_constant_fields (GPU_shader_get_uniform gpu sh name) 1 16 FloatValue data \<and>
     headers p1 = headers p @
       [\<lparr>header_type = Type_PushConstant, header_index = of_nat (length (commands p))\<rparr>,
        \<lparr>header_type = Type_None, header_index = of_nat (length (commands p)) + 1\<rparr>,
        \<lparr>header_type = Type_None, header_index = of_nat (length (commands p)) + 2\<rparr>] \<and>
     commands p1 = commands p @ [c0, float4x4_overrun data 1, float4x4_overrun data 2] \<and>
     (\<forall>n (dev :: 's device) sp s.
        submit_headers n dev sp (commands p1) (drop (length (headers p)) (headers p1)) s
          = Some (Inr (execute dev Type_PushConstant c0 s))) \<and>
     (\<forall>n (dev :: 's device) sp s s1.
        submit_headers n dev sp (commands p) (headers p) s = Some (Inr s1) \<longrightarrow>
        submit_headers n dev sp (commands p1) (headers p1) s
          = Some (Inr (execute dev Type_PushConstant c0 s1)))"
proof -
  let ?c0 = "push_constant_fields (GPU_shader_get_uniform gpu sh name) 1 16 FloatValue data"
  let ?new = "[\<lparr>header_type = Type_PushConstant, header_index = of_nat (length (commands p))\<rparr>,
        \<lparr>header_type = Type_None, header_index = of_nat (length (commands p) + 1) :: 32 word\<rparr>,
        \<lparr>header_type = Type_None, header_index = of_nat (length (commands p) + 2)\<rparr>]"
  from push_constant_float4x4_result [OF sh, of gpu name data]
  obtain p1 where p1: "push_constant_float4x4 gpu name data p = Inr p1"
    and h: "headers p1 = headers p @ ?new"
    and c: "commands p1 = commands p @ [?c0, float4x4_overrun data 1, float4x4_overrun data 2]"
    by blast
  from room have u: "unat (of_nat (length (commands p)) :: 32 word) = length (commands p)"
    by (simp add: unat_of_nat_32)
  have new: "submit_headers n dev sp (commands p1) ?new s
               = Some (Inr (execute dev Type_PushConstant ?c0 s))" for n sp s and dev :: "'s device"
    by (simp add: c u)
  have whole: "submit_headers n dev sp (commands p1) (headers p1) s
                 = Some (Inr (execute dev Type_PushConstant ?c0 s1))"
    if "submit_headers n dev sp (commands p) (headers p) s = Some (Inr s1)"
    for n sp s s1 and dev :: "'s device"
  proof -
    from submit_headers_extend [OF that]
    have "submit_headers n dev sp (commands p1) (headers p) s = Some (Inr s1)"
      by (simp add: c)
    then have "submit_headers n dev sp (commands p1) (headers p @ ?new) s
        = submit_headers n dev sp (commands p1) ?new s1"
      by (simp only: submit_headers_append option.case sum.case)
    also have "\<dots> = Some (Inr (execute dev Type_PushConstant ?c0 s1))"
      by (rule new)
    finally show ?thesis by (simp only: h)
  qed
  show ?thesis
    using p1 h c new whole by (intro exI [of _ p1] exI [of _ ?c0]) simp
qed

theorem push_constant_float4x4_three_slots_witness:
  "\<exists>p1. push_constant_float4x4 gpu_example ''model'' [1, 0, 0, 0, 0, 1, 0, 0, 0, 0, 1, 0, 0, 0, 0, 1]
           pass_example = Inr p1 \<and>
     map header_type (headers p1) = [Type_PushConstant, Type_None, Type_None] \<and>
     length (commands p1) = 3 \<and>
     submit_headers 0 log_device [] (commands p1) (headers p1) []
       = Some (Inr [Execute Type_PushConstant
            (push_constant_fields 7 1 16 FloatValue [1, 0, 0, 0, 0, 1, 0, 0, 0, 0, 1, 0, 0, 0, 0, 1])])"
proof -
  have sh: "shader pass_example = Some 1" by (simp add: pass_example_def PassBase_new_def)
  have room: "length (commands pass_example) + 2 < 2 ^ 32"
    by (simp add: pass_example_def PassBase_new_def)
  have old: "submit_headers 0 log_device [] (commands pass_example) (headers pass_example) []
      = Some (Inr [])"
    by (simp add: pass_example_def PassBase_new_def)
  from push_constant_float4x4_three_slots [OF sh room, of gpu_example "''model''"
      "[1, 0, 0, 0, 0, 1, 0, 0, 0, 0, 1, 0, 0, 0, 0, 1]"]
  obtain p1 c0 where p1: "push_constant_float4x4 gpu_example ''model''
        [1, 0, 0, 0, 0, 1, 0, 0, 0, 0, 1, 0, 0, 0, 0, 1] pass_example = Inr p1"
    and c0: "c0 = push_constant_fields (GPU_shader_get_uniform gpu_example 1 ''model'') 1 16
        FloatValue [1, 0, 0, 0, 0, 1, 0, 0, 0, 0, 1, 0, 0, 0, 0, 1]"
    and h: "headers p1 = headers pass_example @
       [\<lparr>header_type = Type_PushConstant, header_index = of_nat (length (commands pass_example))\<rparr>,
        \<lparr>header_type = Type_None, header_index = of_nat (length (commands pass_example)) + 1\<rparr>,
        \<lparr>header_type = Type_None, header_index = of_nat (length (commands pass_example)) + 2\<rparr>]"
    and c: "commands p1 = commands pass_example @ [c0, float4x4_overrun
        [1, 0, 0, 0, 0, 1, 0, 0, 0, 0, 1, 0, 0, 0, 0, 1] 1, float4x4_overrun
        [1, 0, 0, 0, 0, 1, 0, 0, 0, 0, 1, 0, 0, 0, 0, 1] 2]"
    and w: "\<forall>n (dev :: event list device) sp s s1.
        submit_headers n dev sp (commands pass_example) (headers pass_example) s = Some (Inr s1) \<longrightarrow>
        submit_headers n dev sp (commands p1) (headers p1) s
          = Some (Inr (execute dev Type_PushConstant c0 s1))"
    by blast
  from w old have "submit_headers 0 log_device [] (commands p1) (headers p1) []
      = Some (Inr (execute log_device Type_PushConstant c0 []))"
    by blast
  with p1 h c c0 show ?thesis
    by (simp add: pass_example_def PassBase_new_def gpu_example_def log_device_def)
qed

section \<open>Header bounds\<close>

lemma appended_refl: "appended p p"
  by (simp add: appended_def)

lemma appended_trans:
  assumes "appended p p1" "appended p1 p2"
  shows "appended p p2"
proof -
  from assms(1) obtain hs cs where 1: "debug_name p1 = debug_name p"
    "headers p1 = headers p @ hs" "commands p1 = commands p @ cs"
    "\<forall>h \<in> set hs. header_type h \<noteq> Type_SubPass \<and>
        unat (header_index h) < length (commands p) + length cs"
    by (auto simp add: appended_def list_all_iff)
  from assms(2) obtain hs1 cs1 where 2: "debug_name p2 = debug_name p1"
    "headers p2 = headers p1 @ hs1" "commands p2 = commands p1 @ cs1"
    "\<forall>h \<in> set hs1. header_type h \<noteq> Type_SubPass \<and>
        unat (header_index h) < length (commands p1) + length cs1"
    by (auto simp add: appended_def list_all_iff)
  have "headers p2 = headers p @ (hs @ hs1)" "commands p2 = commands p @ (cs @ cs1)"
    using 1 2 by simp_all
  moreover have "\<forall>h \<in> set (hs @ hs1). header_type h \<noteq> Type_SubPass \<and>
        unat (header_index h) < length (commands p) + length (cs @ cs1)"
    using 1(3,4) 2(4) by fastforce
  ultimately show ?thesis
    unfolding appended_def list_all_iff using 1(1) 2(1) by metis
qed

lemma appended_record:
  "t \<noteq> Type_SubPass \<Longrightarrow> appended p (assign_command c (create_command t p))"
proof -
  assume t: "t \<noteq> Type_SubPass"
  have "unat (of_nat (length (commands p)) :: 32 word) < length (commands p) + length [c]"
    using unat_of_nat_32_le [of "length (commands p)"] by simp
  with t show ?thesis
    unfolding appended_def
    by (intro conjI exI [of _ "[\<lparr>header_type = t, header_index = of_nat (length (commands p))\<rparr>]"]
        exI [of _ "[c]"]) simp_all
qed

lemma appended_shader: "appended p (p\<lparr>shader := sh\<rparr>)"
  by (simp add: appended_def)

lemma appended_clear: "appended p (clear planes color depth stencil p)"
  by (simp add: clear_def appended_record)

lemma appended_bind_slot: "appended p (bind_slot slot res p)"
  by (simp add: bind_slot_def appended_record)

lemma appended_bind_name: "bind_name gpu name res p = Inr p1 \<Longrightarrow> appended p p1"
  by (auto simp add: bind_name_def appended_bind_slot split: option.splits)

lemma appended_shader_set: "appended p (shader_set sh p)"
  unfolding shader_set_def
  by (rule appended_trans [OF appended_shader [of p sh]]) (simp add: appended_record)

lemma appended_draw:
  "draw debug batch il vl vf handle p = Inr p1 \<Longrightarrow> appended p p1"
  by (auto simp add: draw_def BLI_assert_def append_draw_def appended_record appended_refl
      split: if_splits)

lemma appended_draw_indirect:
  "draw_indirect debug batch buf handle p = Inr p1 \<Longrightarrow> appended p p1"
  by (auto simp add: draw_indirect_def BLI_assert_def appended_record split: if_splits)

lemma appended_dispatch: "dispatch debug g p = Inr p1 \<Longrightarrow> appended p p1"
  by (auto simp add: dispatch_def BLI_assert_def appended_record split: if_splits)

lemma appended_dispatch_indirect: "dispatch_indirect debug buf p = Inr p1 \<Longrightarrow> appended p p1"
  by (auto simp add: dispatch_indirect_def BLI_assert_def appended_record split: if_splits)

lemma appended_push_constant: "push_constant gpu name data p = Inr p1 \<Longrightarrow> appended p p1"
  by (auto simp add: push_constant_def appended_record split: sum.splits)

lemma appended_push_constant_float4x4:
  "push_constant_float4x4 gpu name data p = Inr p1 \<Longrightarrow> appended p p1"
proof -
  assume a: "push_constant_float4x4 gpu name data p = Inr p1"
  then obtain location where "push_constant_offset gpu name p = Inr location"
    by (auto simp add: push_constant_float4x4_def split: sum.splits)
  with a have p1: "p1 = assign_command (float4x4_overrun data 2) (create_command Type_None
      (assign_command (float4x4_overrun data 1) (create_command Type_None
        (assign_command (push_constant_fields location 1 16 FloatValue data)
          (create_command Type_PushConstant p)))))"
    by (simp add: push_constant_float4x4_def Let_def)
  show ?thesis
    unfolding p1
    by (rule appended_trans [OF appended_record appended_trans [OF appended_record appended_record]])
      simp_all
qed

lemma appended_material_texture_bind:
  "material_texture_bind gpu tex p = Inr p1 \<Longrightarrow> appended p p1"
  by (auto simp add: material_texture_bind_def appended_refl split: if_splits sum.splits option.splits
      intro: appended_bind_name appended_trans)

lemma appended_material_textures_bind:
  "material_textures_bind gpu texs p = Inr p1 \<Longrightarrow> appended p p1"
proof (induction texs arbitrary: p)
  case Nil
  then show ?case by (simp add: appended_refl)
next
  case (Cons tex texs)
  then show ?case
    by (auto split: sum.splits intro: appended_material_texture_bind appended_trans)
qed

lemma appended_material_set:
  assumes "material_set gpu material p = Inr p1"
  shows "appended p p1"
proof -
  from assms obtain p2 where
    t: "material_textures_bind gpu (material_textures material)
          (shader_set (material_shader material) p) = Inr p2"
    by (auto simp add: material_set_def split: sum.splits)
  have a: "appended p p2"
    by (rule appended_trans [OF appended_shader_set appended_material_textures_bind [OF t]])
  from assms t have "appended p2 p1"
    by (auto simp add: material_set_def appended_refl split: option.splits
        intro: appended_bind_name)
  with a show ?thesis by (rule appended_trans)
qed

lemma appended_record_op: "record_op debug gpu x p = Inr p1 \<Longrightarrow> appended p p1"
proof (cases x)
  case (op_draw_procedural prim il vl vf handle)
  assume "record_op debug gpu x p = Inr p1"
  with op_draw_procedural show ?thesis
    by (auto simp add: draw_procedural_def split: sum.splits intro: appended_draw)
next
  case (op_draw_procedural_indirect prim buf handle)
  assume "record_op debug gpu x p = Inr p1"
  with op_draw_procedural_indirect show ?thesis
    by (auto simp add: draw_procedural_indirect_def split: sum.splits intro: appended_draw_indirect)
qed (auto simp add: state_set_def clear_color_def clear_depth_def clear_stencil_def
    clear_depth_stencil_def clear_color_depth_stencil_def state_stencil_def barrier_def
    draw_handle_def appended_record appended_clear appended_shader_set appended_bind_slot
    intro: appended_material_set appended_draw appended_draw_indirect appended_dispatch
      appended_dispatch_indirect appended_bind_name appended_push_constant
      appended_push_constant_float4x4)

lemma header_ok_mono:
  "header_ok n_sub n_cmd h \<Longrightarrow> n_sub \<le> n_sub1 \<Longrightarrow> n_cmd \<le> n_cmd1 \<Longrightarrow> header_ok n_sub1 n_cmd1 h"
  by (auto simp add: header_ok_def split: if_splits)

lemma pass_base_ok_mono: "pass_base_ok n p \<Longrightarrow> n \<le> n1 \<Longrightarrow> pass_base_ok n1 p"
  by (auto simp add: pass_base_ok_def list_all_iff intro: header_ok_mono)

lemma pass_base_ok_appended:
  assumes "appended p p1" "pass_base_ok n p"
  shows "pass_base_ok n p1"
proof -
  from assms(1) obtain hs cs where 1:
    "headers p1 = headers p @ hs" "commands p1 = commands p @ cs"
    "\<forall>h \<in> set hs. header_type h \<noteq> Type_SubPass \<and>
        unat (header_index h) < length (commands p) + length cs"
    by (auto simp add: appended_def list_all_iff)
  from assms(2) have "\<forall>h \<in> set (headers p). header_ok n (length (commands p1)) h"
    by (auto simp add: pass_base_ok_def list_all_iff 1(2) intro: header_ok_mono)
  moreover from 1 have "\<forall>h \<in> set hs. header_ok n (length (commands p1)) h"
    by (simp add: header_ok_def)
  ultimately show ?thesis
    by (auto simp add: pass_base_ok_def list_all_iff 1(1))
qed

lemma pass_base_ok_new: "pass_base_ok n (PassBase_new name sh)"
  by (simp add: pass_base_ok_def PassBase_new_def)

lemma pass_base_ok_sub_header:
  "pass_base_ok n p \<Longrightarrow>
     pass_base_ok (Suc n)
       (p\<lparr>headers := headers p @ [\<lparr>header_type = Type_SubPass, header_index = of_nat n\<rparr>]\<rparr>)"
  using unat_of_nat_32_le [of n]
  by (auto simp add: pass_base_ok_def list_all_iff header_ok_def)

lemma list_all_update: "list_all P xs \<Longrightarrow> P y \<Longrightarrow> list_all P (xs[i := y])"
  using set_update_subset_insert [of xs i y] by (auto simp add: list_all_iff)

lemma block_size_pos: "0 < sub_pass_block_size"
  by (simp add: sub_pass_block_size_def)

lemma get_pass_Sub:
  assumes "spv_inv sub_pass_block_size (sub_passes_main st)" "get_pass st (Sub i) = Inr p"
  shows "i < length (concat (sub_passes_main st)) \<and> p = concat (sub_passes_main st) ! i"
proof (cases "i < length (concat (sub_passes_main st))")
  case True
  from spv_get_concat [OF assms(1) block_size_pos True] assms(2) show ?thesis
    using True by (simp add: get_pass_def)
next
  case False
  then have "length (concat (sub_passes_main st)) \<le> i" by simp
  from spv_get_out [OF assms(1) block_size_pos this] assms(2) show ?thesis
    by (simp add: get_pass_def)
qed

lemma put_pass_Sub:
  assumes "spv_inv sub_pass_block_size (sub_passes_main st)"
    "i < length (concat (sub_passes_main st))"
  shows "\<exists>blocks. put_pass st (Sub i) p = Inr (st\<lparr>sub_passes_main := blocks\<rparr>) \<and>
           spv_inv sub_pass_block_size blocks \<and>
           concat blocks = (concat (sub_passes_main st))[i := p]"
  using spv_set_concat [OF assms(1) block_size_pos assms(2), of p]
  by (auto simp add: put_pass_def)

lemma pass_ok_put:
  assumes ok: "pass_ok st" and g: "get_pass st r = Inr p"
    and p1: "pass_base_ok (length (concat (sub_passes_main st))) p1"
    and put: "put_pass st r p1 = Inr st1"
  shows "pass_ok st1"
proof (cases r)
  case Root
  with put have "st1 = st\<lparr>root_pass := p1\<rparr>" by (simp add: put_pass_def)
  with ok p1 show ?thesis by (simp add: pass_ok_def)
next
  case (Sub i)
  from ok have inv: "spv_inv sub_pass_block_size (sub_passes_main st)" by (simp add: pass_ok_def)
  from get_pass_Sub [OF inv] g Sub have i: "i < length (concat (sub_passes_main st))" by simp
  from put_pass_Sub [OF inv i, of p1] put Sub obtain blocks where
    b: "st1 = st\<lparr>sub_passes_main := blocks\<rparr>" "spv_inv sub_pass_block_size blocks"
      "concat blocks = (concat (sub_passes_main st))[i := p1]"
    by auto
  with ok p1 show ?thesis by (simp add: pass_ok_def list_all_update)
qed

lemma get_pass_ok:
  assumes ok: "pass_ok st" and g: "get_pass st r = Inr p"
  shows "pass_base_ok (length (concat (sub_passes_main st))) p"
proof (cases r)
  case Root
  with g ok show ?thesis by (simp add: get_pass_def pass_ok_def)
next
  case (Sub i)
  from ok have inv: "spv_inv sub_pass_block_size (sub_passes_main st)" by (simp add: pass_ok_def)
  from get_pass_Sub [OF inv] g Sub
  have "i < length (concat (sub_passes_main st))" "p = concat (sub_passes_main st) ! i"
    by simp_all
  with ok show ?thesis by (simp add: pass_ok_def list_all_length)
qed

lemma pass_ok_grow:
  assumes ok: "pass_ok st"
  shows "pass_ok (st\<lparr>sub_passes_main :=
            fst (append_and_get_index sub_pass_block_size (PassBase_new name sh) (sub_passes_main st))\<rparr>)"
proof -
  let ?b = "fst (append_and_get_index sub_pass_block_size (PassBase_new name sh) (sub_passes_main st))"
  from ok have inv: "spv_inv sub_pass_block_size (sub_passes_main st)" by (simp add: pass_ok_def)
  have c: "concat ?b = concat (sub_passes_main st) @ [PassBase_new name sh]"
    by (rule concat_append_and_get_index)
  have i: "spv_inv sub_pass_block_size ?b"
    using inv block_size_pos by (rule spv_inv_append_and_get_index)
  from ok have "pass_base_ok (Suc (length (concat (sub_passes_main st)))) (root_pass st)"
    by (auto simp add: pass_ok_def intro: pass_base_ok_mono)
  moreover from ok
  have "list_all (pass_base_ok (length (concat (sub_passes_main st)))) (concat (sub_passes_main st))"
    by (simp add: pass_ok_def)
  then have "list_all (pass_base_ok (Suc (length (concat (sub_passes_main st))))) (concat (sub_passes_main st))"
    unfolding list_all_iff by (blast intro: pass_base_ok_mono le_SucI)
  ultimately show ?thesis
    using i c by (simp add: pass_ok_def pass_base_ok_new)
qed

lemma get_pass_grow:
  assumes ok: "pass_ok st" and g: "get_pass st r = Inr p"
  shows "get_pass (st\<lparr>sub_passes_main :=
            fst (append_and_get_index sub_pass_block_size x (sub_passes_main st))\<rparr>) r = Inr p"
proof (cases r)
  case Root
  with g show ?thesis by (simp add: get_pass_def)
next
  case (Sub i)
  let ?b = "fst (append_and_get_index sub_pass_block_size x (sub_passes_main st))"
  from ok have inv: "spv_inv sub_pass_block_size (sub_passes_main st)" by (simp add: pass_ok_def)
  from get_pass_Sub [OF inv] g Sub
  have i: "i < length (concat (sub_passes_main st))" and p: "p = concat (sub_passes_main st) ! i"
    by simp_all
  have c: "concat ?b = concat (sub_passes_main st) @ [x]"
    by (rule concat_append_and_get_index)
  have inv1: "spv_inv sub_pass_block_size ?b"
    using inv block_size_pos by (rule spv_inv_append_and_get_index)
  from i c have "i < length (concat ?b)" by simp
  from spv_get_concat [OF inv1 block_size_pos this] i p c Sub show ?thesis
    by (simp add: get_pass_def nth_append)
qed

lemma sub_unfold:
  assumes ok: "pass_ok st" and g: "get_pass st r = Inr p"
  shows "sub name r st =
     (case put_pass (st\<lparr>sub_passes_main :=
              fst (append_and_get_index sub_pass_block_size (PassBase_new name (shader p))
                     (sub_passes_main st))\<rparr>) r
            (p\<lparr>headers := headers p @ [\<lparr>header_type = Type_SubPass,
                 header_index = of_nat (length (concat (sub_passes_main st)))\<rparr>]\<rparr>) of
        Inl e \<Rightarrow> Inl e
      | Inr st2 \<Rightarrow> Inr (st2, Sub (length (concat (sub_passes_main st)))))"
proof -
  from ok have inv: "spv_inv sub_pass_block_size (sub_passes_main st)" by (simp add: pass_ok_def)
  from snd_append_and_get_index [OF inv block_size_pos]
  have "snd (append_and_get_index sub_pass_block_size (PassBase_new name (shader p))
          (sub_passes_main st)) = length (concat (sub_passes_main st))" .
  with g show ?thesis
    by (simp add: sub_def Let_def case_prod_beta)
qed

lemma pass_ok_sub:
  assumes ok: "pass_ok st" and s: "sub name r st = Inr (st2, r2)"
  shows "pass_ok st2"
proof -
  from s obtain p where g: "get_pass st r = Inr p"
    by (auto simp add: sub_def split: sum.splits)
  let ?st1 = "st\<lparr>sub_passes_main :=
              fst (append_and_get_index sub_pass_block_size (PassBase_new name (shader p))
                     (sub_passes_main st))\<rparr>"
  let ?p1 = "p\<lparr>headers := headers p @ [\<lparr>header_type = Type_SubPass,
                 header_index = of_nat (length (concat (sub_passes_main st)))\<rparr>]\<rparr>"
  from s sub_unfold [OF ok g, of name] have put: "put_pass ?st1 r ?p1 = Inr st2"
    by (auto split: sum.splits)
  have ok1: "pass_ok ?st1" using ok by (rule pass_ok_grow)
  have g1: "get_pass ?st1 r = Inr p" using ok g by (rule get_pass_grow)
  have len: "length (concat (sub_passes_main ?st1)) = Suc (length (concat (sub_passes_main st)))"
    by (simp add: concat_append_and_get_index)
  have "pass_base_ok (Suc (length (concat (sub_passes_main st)))) ?p1"
    using get_pass_ok [OF ok g] by (rule pass_base_ok_sub_header)
  then have "pass_base_ok (length (concat (sub_passes_main ?st1))) ?p1"
    by (simp only: len)
  from pass_ok_put [OF ok1 g1 this put] show ?thesis .
qed

lemma pass_ok_record_call:
  assumes ok: "pass_ok st" and c: "record_call debug gpu c st = Inr st1"
  shows "pass_ok st1"
proof (cases c)
  case (call_op r x)
  with c obtain p p1 where g: "get_pass st r = Inr p" and x: "record_op debug gpu x p = Inr p1"
    and put: "put_pass st r p1 = Inr st1"
    by (auto simp add: record_call_def split: sum.splits)
  from pass_base_ok_appended [OF appended_record_op [OF x] get_pass_ok [OF ok g]]
  show ?thesis using pass_ok_put [OF ok g _ put] by blast
next
  case (call_sub r name)
  with c obtain res where "sub name r st = Inr res" "st1 = fst res"
    by (auto simp add: record_call_def split: sum.splits)
  then have "sub name r st = Inr (st1, snd res)" by simp
  with ok show ?thesis by (rule pass_ok_sub)
qed

lemma pass_ok_init: "pass_ok (Pass_init st)"
  by (simp add: pass_ok_def Pass_init_def pass_base_ok_def spv_inv_Nil)

lemma pass_ok_new: "pass_ok (Pass_new name)"
  by (simp add: pass_ok_def Pass_new_def pass_base_ok_new spv_inv_Nil)

lemma pass_ok_PassSortable_sub:
  assumes ok: "pass_ok (pass_main ps)"
  shows "pass_ok (pass_main (fst (PassSortable_sub name v ps)))"
proof -
  let ?st = "pass_main ps"
  let ?b = "fst (append_and_get_index sub_pass_block_size
                  (PassBase_new name (shader (root_pass ?st))) (sub_passes_main ?st))"
  let ?p1 = "(root_pass ?st)\<lparr>headers := headers (root_pass ?st) @ [\<lparr>header_type = Type_SubPass,
                 header_index = of_nat (length (concat (sub_passes_main ?st)))\<rparr>]\<rparr>"
  from ok have inv: "spv_inv sub_pass_block_size (sub_passes_main ?st)" by (simp add: pass_ok_def)
  from snd_append_and_get_index [OF inv block_size_pos]
  have idx: "snd (append_and_get_index sub_pass_block_size
       (PassBase_new name (shader (root_pass ?st))) (sub_passes_main ?st))
      = length (concat (sub_passes_main ?st))" .
  have eq: "pass_main (fst (PassSortable_sub name v ps)) = \<lparr>root_pass = ?p1, sub_passes_main = ?b\<rparr>"
    by (simp add: PassSortable_sub_def Let_def case_prod_beta idx)
  have ok1: "pass_ok (?st\<lparr>sub_passes_main := ?b\<rparr>)" using ok by (rule pass_ok_grow)
  have g: "get_pass ?st Root = Inr (root_pass ?st)" by (simp add: get_pass_def)
  have "pass_base_ok (Suc (length (concat (sub_passes_main ?st)))) ?p1"
    using get_pass_ok [OF ok g] by (rule pass_base_ok_sub_header)
  with ok1 show ?thesis
    unfolding eq by (simp add: pass_ok_def concat_append_and_get_index)
qed

lemma submit_headers_in_bounds:
  assumes elems: "\<forall>q \<in> set (concat sp). pass_base_ok (length (concat sp)) q"
    and inv: "spv_inv sub_pass_block_size sp"
    and sub: "\<And>p s. pass_base_ok (length (concat sp)) p \<Longrightarrow> submit n dev sp p s \<noteq> Some (Inl e)"
  shows "list_all (header_ok (length (concat sp)) (length cs)) hs \<Longrightarrow>
           submit_headers n dev sp cs hs s \<noteq> Some (Inl e)"
proof (induction hs arbitrary: s)
  case Nil
  then show ?case by simp
next
  case (Cons h hs)
  from Cons.prems have h: "header_ok (length (concat sp)) (length cs) h"
    and hs: "list_all (header_ok (length (concat sp)) (length cs)) hs" by simp_all
  show ?case
  proof (cases "header_type h = Type_SubPass")
    case True
    with h have i: "unat (header_index h) < length (concat sp)" by (simp add: header_ok_def)
    let ?q = "concat sp ! unat (header_index h)"
    from spv_get_concat [OF inv block_size_pos i]
    have g: "spv_get sub_pass_block_size sp (unat (header_index h)) = Inr ?q" .
    from nth_mem [OF i] elems have "pass_base_ok (length (concat sp)) ?q" by blast
    from sub [OF this] have "submit n dev sp ?q s \<noteq> Some (Inl e)" .
    with True g Cons.IH [OF hs] show ?thesis
      by (auto split: option.splits sum.splits)
  next
    case False
    with h have "unat (header_index h) < length cs" by (simp add: header_ok_def)
    with False Cons.IH [OF hs] show ?thesis by simp
  qed
qed

lemma submit_in_bounds:
  assumes elems: "\<forall>q \<in> set (concat sp). pass_base_ok (length (concat sp)) q"
    and inv: "spv_inv sub_pass_block_size sp"
  shows "pass_base_ok (length (concat sp)) p \<Longrightarrow> submit n dev sp p s \<noteq> Some (Inl e)"
proof (induction n arbitrary: p s)
  case 0
  then show ?case by simp
next
  case (Suc n)
  from Suc.prems have "list_all (header_ok (length (concat sp)) (length (commands p))) (headers p)"
    by (simp add: pass_base_ok_def)
  from submit_headers_in_bounds [OF elems inv Suc.IH this]
  show ?case by (auto split: option.splits sum.splits)
qed

lemma serialize_headers_in_bounds:
  assumes elems: "\<forall>q \<in> set (concat sp). pass_base_ok (length (concat sp)) q"
    and inv: "spv_inv sub_pass_block_size sp"
    and sub: "\<And>p pre. pass_base_ok (length (concat sp)) p \<Longrightarrow> serialize n ser sp p pre \<noteq> Some (Inl e)"
  shows "list_all (header_ok (length (concat sp)) (length cs)) hs \<Longrightarrow>
           serialize_headers n ser sp cs hs pre ss \<noteq> Some (Inl e)"
proof (induction hs arbitrary: ss)
  case Nil
  then show ?case by simp
next
  case (Cons h hs)
  from Cons.prems have h: "header_ok (length (concat sp)) (length cs) h"
    and hs: "list_all (header_ok (length (concat sp)) (length cs)) hs" by simp_all
  show ?case
  proof (cases "header_type h = Type_SubPass")
    case True
    with h have i: "unat (header_index h) < length (concat sp)" by (simp add: header_ok_def)
    let ?q = "concat sp ! unat (header_index h)"
    from spv_get_concat [OF inv block_size_pos i]
    have g: "spv_get sub_pass_block_size sp (unat (header_index h)) = Inr ?q" .
    from nth_mem [OF i] elems have "pass_base_ok (length (concat sp)) ?q" by blast
    from sub [OF this] have "serialize n ser sp ?q pre \<noteq> Some (Inl e)" .
    with True g Cons.IH [OF hs] show ?thesis
      by (auto split: option.splits sum.splits)
  next
    case False
    with h have "unat (header_index h) < length cs" by (simp add: header_ok_def)
    with False Cons.IH [OF hs] show ?thesis by simp
  qed
qed

lemma serialize_in_bounds:
  assumes elems: "\<forall>q \<in> set (concat sp). pass_base_ok (length (concat sp)) q"
    and inv: "spv_inv sub_pass_block_size sp"
  shows "pass_base_ok (length (concat sp)) p \<Longrightarrow> serialize n ser sp p pre \<noteq> Some (Inl e)"
proof (induction n arbitrary: p pre)
  case 0
  then show ?case by simp
next
  case (Suc n)
  from Suc.prems have "list_all (header_ok (length (concat sp)) (length (commands p))) (headers p)"
    by (simp add: pass_base_ok_def)
  from serialize_headers_in_bounds [OF elems inv Suc.IH this]
  show ?case by simp
qed

text \<open>
  C10. In a state where every header indexes valid storage (a sub-pass header an element
  of the shared container, any other header, placeholders included, a command of its own
  pass), every recording call that returns leaves such a state, and so does the \<^verbatim>\<open>sub\<close> of
  the sortable pass; and in such a state neither \<^verbatim>\<open>submit\<close> nor \<^verbatim>\<open>serialize\<close>, on the root
  or on any sub-pass, ever indexes out of bounds.
\<close>

theorem recording_keeps_headers_in_bounds:
  assumes ok: "pass_ok st"
  shows "(\<forall>debug gpu c st1. record_call debug gpu c st = Inr st1 \<longrightarrow> pass_ok st1) \<and>
         (\<forall>ps name v. pass_main ps = st \<longrightarrow> pass_ok (pass_main (fst (PassSortable_sub name v ps)))) \<and>
         (\<forall>r p n (dev :: 's device) s e. get_pass st r = Inr p \<longrightarrow>
            submit n dev (sub_passes_main st) p s \<noteq> Some (Inl e)) \<and>
         (\<forall>r p n ser line_prefix e. get_pass st r = Inr p \<longrightarrow>
            serialize n ser (sub_passes_main st) p line_prefix \<noteq> Some (Inl e))"
proof -
  from ok have inv: "spv_inv sub_pass_block_size (sub_passes_main st)"
    and elems: "\<forall>q \<in> set (concat (sub_passes_main st)).
                  pass_base_ok (length (concat (sub_passes_main st))) q"
    by (simp_all add: pass_ok_def list_all_iff)
  have 1: "\<forall>debug gpu c st1. record_call debug gpu c st = Inr st1 \<longrightarrow> pass_ok st1"
    using ok by (blast intro: pass_ok_record_call)
  have 2: "\<forall>ps name v. pass_main ps = st \<longrightarrow> pass_ok (pass_main (fst (PassSortable_sub name v ps)))"
    using ok by (blast intro: pass_ok_PassSortable_sub)
  have 3: "\<forall>r p n (dev :: 's device) s e. get_pass st r = Inr p \<longrightarrow>
            submit n dev (sub_passes_main st) p s \<noteq> Some (Inl e)"
  proof (intro allI impI)
    fix r p n and dev :: "'s device" and s e
    assume "get_pass st r = Inr p"
    from submit_in_bounds [OF elems inv get_pass_ok [OF ok this]]
    show "submit n dev (sub_passes_main st) p s \<noteq> Some (Inl e)" .
  qed
  have 4: "\<forall>r p n ser line_prefix e. get_pass st r = Inr p \<longrightarrow>
            serialize n ser (sub_passes_main st) p line_prefix \<noteq> Some (Inl e)"
  proof (intro allI impI)
    fix r p n ser line_prefix e
    assume "get_pass st r = Inr p"
    from serialize_in_bounds [OF elems inv get_pass_ok [OF ok this]]
    show "serialize n ser (sub_passes_main st) p line_prefix \<noteq> Some (Inl e)" .
  qed
  from 1 2 3 4 show ?thesis by (intro conjI)
qed

theorem recording_keeps_headers_in_bounds_witness:
  "pass_ok (Pass_new ''main'') \<and>
   (\<exists>st1. record_call True gpu_example (call_sub Root ''inner'') (Pass_new ''main'') = Inr st1 \<and>
          pass_ok st1) \<and>
   submit 1 log_device (sub_passes_main (Pass_new ''main'')) (root_pass (Pass_new ''main'')) []
     = Some (Inr [Group_begin ''main'', Group_end])"
proof -
  have ok: "pass_ok (Pass_new ''main'')" by (rule pass_ok_new)
  note t = recording_keeps_headers_in_bounds [OF ok, where 's = "event list"]
  have "\<exists>st1. record_call True gpu_example (call_sub Root ''inner'') (Pass_new ''main'') = Inr st1"
    by (simp add: record_call_def sub_def get_pass_def put_pass_def Pass_new_def Let_def
        case_prod_beta)
  then obtain st1 where
    r: "record_call True gpu_example (call_sub Root ''inner'') (Pass_new ''main'') = Inr st1"
    by blast
  with t have "pass_ok st1" by blast
  moreover have "submit 1 log_device (sub_passes_main (Pass_new ''main''))
      (root_pass (Pass_new ''main'')) [] = Some (Inr [Group_begin ''main'', Group_end])"
    by (simp add: Pass_new_def PassBase_new_def log_device_def)
  ultimately show ?thesis using ok r by blast
qed

section \<open>Submission follows the recorded tree\<close>

lemma replay_Nil: "replay dev [] s = s"
  by (simp add: replay_def)

lemma replay_Cons: "replay dev (ev # evs) s = replay dev evs (replay_event dev ev s)"
  by (simp add: replay_def)

lemma replay_append: "replay dev (evs1 @ evs2) s = replay dev evs2 (replay dev evs1 s)"
  by (simp add: replay_def)

lemma submit_headers_follow_items:
  "recorded_items sp cs hs items \<Longrightarrow>
     \<exists>n. \<forall>m \<ge> n. \<forall>s. submit_headers m dev sp cs hs s
        = Some (Inr (replay dev (concat (map item_events items)) s))"
proof (induction rule: recorded_items.induct)
  case (rec_Nil sp cs)
  show ?case by (simp add: replay_Nil)
next
  case (rec_None h sp cs hs items)
  from rec_None.IH obtain n where
    n: "\<forall>m \<ge> n. \<forall>s. submit_headers m dev sp cs hs s
        = Some (Inr (replay dev (concat (map item_events items)) s))"
    by blast
  with rec_None.hyps(1)
  have "\<forall>m \<ge> n. \<forall>s. submit_headers m dev sp cs (h # hs) s
        = Some (Inr (replay dev (concat (map item_events (Placeholder # items))) s))"
    by simp
  then show ?case by blast
next
  case (rec_SubPass h sp q sub_items cs hs items)
  from rec_SubPass.IH obtain n1 n2 where
    n1: "\<forall>m \<ge> n1. \<forall>s. submit_headers m dev sp (commands q) (headers q) s
        = Some (Inr (replay dev (concat (map item_events sub_items)) s))"
    and n2: "\<forall>m \<ge> n2. \<forall>s. submit_headers m dev sp cs hs s
        = Some (Inr (replay dev (concat (map item_events items)) s))"
    by blast
  have "submit_headers m dev sp cs (h # hs) s
        = Some (Inr (replay dev (concat (map item_events (SubTree (debug_name q) sub_items # items))) s))"
    if m: "m \<ge> max (Suc n1) n2" for m s
  proof -
    from m obtain m1 where m1: "m = Suc m1" "m1 \<ge> n1" by (cases m) auto
    from n1 m1 have q: "submit m dev sp q s
        = Some (Inr (GPU_debug_group_end dev
            (replay dev (concat (map item_events sub_items))
               (GPU_debug_group_begin dev (debug_name q) s))))"
      by simp
    from m n2 have r: "\<And>s1. submit_headers m dev sp cs hs s1
        = Some (Inr (replay dev (concat (map item_events items)) s1))" by simp
    from rec_SubPass.hyps(1,2) q r show ?thesis
      by (simp add: replay_append replay_Cons replay_Nil replay_event_def)
  qed
  then show ?case by blast
next
  case (rec_Command h cs sp hs items)
  from rec_Command.IH obtain n where
    n: "\<forall>m \<ge> n. \<forall>s. submit_headers m dev sp cs hs s
        = Some (Inr (replay dev (concat (map item_events items)) s))"
    by blast
  with rec_Command.hyps(1,2,3)
  have "\<forall>m \<ge> n. \<forall>s. submit_headers m dev sp cs (h # hs) s
        = Some (Inr (replay dev (concat (map item_events
            (Command (header_type h) (cs ! unat (header_index h)) # items))) s))"
    by (simp add: replay_Cons replay_event_def)
  then show ?case by blast
qed

lemma submit_follows_tree:
  assumes "recorded_items sp (commands p) (headers p) items"
  shows "\<exists>n. \<forall>m \<ge> n. \<forall>s. submit m dev sp p s
           = Some (Inr (replay dev (item_events (SubTree (debug_name p) items)) s))"
proof -
  from submit_headers_follow_items [OF assms, of dev] obtain n where
    n: "\<forall>m \<ge> n. \<forall>s. submit_headers m dev sp (commands p) (headers p) s
        = Some (Inr (replay dev (concat (map item_events items)) s))" by blast
  have "submit m dev sp p s
           = Some (Inr (replay dev (item_events (SubTree (debug_name p) items)) s))"
    if "m \<ge> Suc n" for m s
  proof -
    from that obtain m1 where "m = Suc m1" "m1 \<ge> n" by (cases m) auto
    with n show ?thesis
      by (simp add: replay_append replay_Cons replay_Nil replay_event_def)
  qed
  then show ?thesis by blast
qed

lemma sub_above_appended:
  assumes "appended p p1" "sub_above lo p"
  shows "sub_above lo p1"
proof -
  from assms(1) obtain hs where 1: "headers p1 = headers p @ hs"
    "\<forall>h \<in> set hs. header_type h \<noteq> Type_SubPass"
    by (auto simp add: appended_def list_all_iff)
  with assms(2) show ?thesis by (auto simp add: sub_above_def list_all_iff)
qed

lemma pass_ordered_iff:
  "pass_ordered st \<longleftrightarrow>
     pass_ok st \<and> (\<forall>j < length (concat (sub_passes_main st)).
                     sub_above (Suc j) (concat (sub_passes_main st) ! j))"
  by (auto simp add: pass_ordered_def list_all_length)

lemma items_exist:
  assumes inv: "spv_inv sub_pass_block_size sp"
    and below: "\<And>k. lo \<le> k \<Longrightarrow> k < length (concat sp) \<Longrightarrow>
        \<exists>its. recorded_items sp (commands (concat sp ! k)) (headers (concat sp ! k)) its"
  shows "list_all (header_ok (length (concat sp)) (length cs)) hs \<Longrightarrow>
         list_all (\<lambda>h. header_type h = Type_SubPass \<longrightarrow> lo \<le> unat (header_index h)) hs \<Longrightarrow>
         \<exists>items. recorded_items sp cs hs items"
proof (induction hs)
  case Nil
  show ?case by (blast intro: recorded_items.rec_Nil)
next
  case (Cons h hs)
  from Cons obtain items where items: "recorded_items sp cs hs items" by auto
  from Cons.prems have h: "header_ok (length (concat sp)) (length cs) h"
    and lo: "header_type h = Type_SubPass \<longrightarrow> lo \<le> unat (header_index h)" by simp_all
  show ?case
  proof (cases "header_type h = Type_SubPass")
    case True
    with h lo have i: "unat (header_index h) < length (concat sp)" "lo \<le> unat (header_index h)"
      by (simp_all add: header_ok_def)
    let ?q = "concat sp ! unat (header_index h)"
    from spv_get_concat [OF inv block_size_pos i(1)]
    have g: "spv_get sub_pass_block_size sp (unat (header_index h)) = Inr ?q" .
    from below [OF i(2) i(1)] obtain its where
      "recorded_items sp (commands ?q) (headers ?q) its" by blast
    from recorded_items.rec_SubPass [OF True g this items] show ?thesis by blast
  next
    case False
    with h have c: "unat (header_index h) < length cs" by (simp add: header_ok_def)
    show ?thesis
    proof (cases "header_type h = Type_None")
      case True
      from recorded_items.rec_None [OF True items] show ?thesis by blast
    next
      case nn: False
      from recorded_items.rec_Command [OF nn False c items] show ?thesis by blast
    qed
  qed
qed

lemma ordered_elements_have_items:
  assumes ord: "pass_ordered st"
  shows "j \<le> k \<Longrightarrow> k < length (concat (sub_passes_main st)) \<Longrightarrow>
     \<exists>its. recorded_items (sub_passes_main st) (commands (concat (sub_passes_main st) ! k))
              (headers (concat (sub_passes_main st) ! k)) its"
proof (induction "length (concat (sub_passes_main st)) - j" arbitrary: j k)
  case 0
  then show ?case by simp
next
  case (Suc d)
  let ?sp = "sub_passes_main st"
  from ord have ok: "pass_ok st" and above: "\<forall>j < length (concat ?sp). sub_above (Suc j) (concat ?sp ! j)"
    by (simp_all add: pass_ordered_iff)
  from ok have inv: "spv_inv sub_pass_block_size ?sp"
    and elems: "\<forall>q \<in> set (concat ?sp). pass_base_ok (length (concat ?sp)) q"
    by (simp_all add: pass_ok_def list_all_iff)
  show ?case
  proof (cases "j = k")
    case False
    with Suc.prems have "Suc j \<le> k" by simp
    moreover from Suc.hyps(2) have "d = length (concat ?sp) - Suc j" by simp
    ultimately show ?thesis using Suc.hyps(1) Suc.prems(2) by blast
  next
    case True
    from Suc.hyps(2) have d: "d = length (concat ?sp) - Suc k" using True by simp
    have below: "\<And>i. Suc k \<le> i \<Longrightarrow> i < length (concat ?sp) \<Longrightarrow>
        \<exists>its. recorded_items ?sp (commands (concat ?sp ! i)) (headers (concat ?sp ! i)) its"
      using Suc.hyps(1) [OF d] by blast
    from nth_mem [OF Suc.prems(2)] elems
    have "pass_base_ok (length (concat ?sp)) (concat ?sp ! k)" by blast
    then have 1: "list_all (header_ok (length (concat ?sp)) (length (commands (concat ?sp ! k))))
        (headers (concat ?sp ! k))" by (simp add: pass_base_ok_def)
    from above Suc.prems(2) have "sub_above (Suc k) (concat ?sp ! k)" by simp
    then have 2: "list_all (\<lambda>h. header_type h = Type_SubPass \<longrightarrow> Suc k \<le> unat (header_index h))
        (headers (concat ?sp ! k))" by (simp add: sub_above_def)
    from items_exist [OF inv below 1 2] show ?thesis by blast
  qed
qed

lemma ordered_pass_has_items:
  assumes ord: "pass_ordered st" and g: "get_pass st r = Inr p"
  shows "\<exists>items. recorded_items (sub_passes_main st) (commands p) (headers p) items"
proof -
  let ?sp = "sub_passes_main st"
  from ord have ok: "pass_ok st" by (simp add: pass_ordered_iff)
  from ok have inv: "spv_inv sub_pass_block_size ?sp" by (simp add: pass_ok_def)
  have all: "\<And>k. 0 \<le> k \<Longrightarrow> k < length (concat ?sp) \<Longrightarrow>
        \<exists>its. recorded_items ?sp (commands (concat ?sp ! k)) (headers (concat ?sp ! k)) its"
    using ordered_elements_have_items [OF ord] by blast
  from get_pass_ok [OF ok g]
  have 1: "list_all (header_ok (length (concat ?sp)) (length (commands p))) (headers p)"
    by (simp add: pass_base_ok_def)
  have 2: "list_all (\<lambda>h. header_type h = Type_SubPass \<longrightarrow> 0 \<le> unat (header_index h)) (headers p)"
    by (simp add: list_all_iff)
  from items_exist [OF inv all 1 2] show ?thesis by blast
qed

lemma pass_ordered_put:
  assumes ord: "pass_ordered st" and g: "get_pass st r = Inr p"
    and p1: "pass_base_ok (length (concat (sub_passes_main st))) p1"
    and above: "\<And>i. r = Sub i \<Longrightarrow> sub_above (Suc i) p1"
    and put: "put_pass st r p1 = Inr st1"
  shows "pass_ordered st1 \<and>
         length (concat (sub_passes_main st1)) = length (concat (sub_passes_main st))"
proof -
  from ord have ok: "pass_ok st"
    and ab: "\<forall>j < length (concat (sub_passes_main st)).
               sub_above (Suc j) (concat (sub_passes_main st) ! j)"
    by (simp_all add: pass_ordered_iff)
  from pass_ok_put [OF ok g p1 put] have ok1: "pass_ok st1" .
  show ?thesis
  proof (cases r)
    case Root
    with put have "st1 = st\<lparr>root_pass := p1\<rparr>" by (simp add: put_pass_def)
    with ok1 ab show ?thesis by (simp add: pass_ordered_iff)
  next
    case (Sub i)
    from ok have inv: "spv_inv sub_pass_block_size (sub_passes_main st)" by (simp add: pass_ok_def)
    from get_pass_Sub [OF inv] g Sub have i: "i < length (concat (sub_passes_main st))" by simp
    from put_pass_Sub [OF inv i, of p1] put Sub obtain blocks where
      b: "st1 = st\<lparr>sub_passes_main := blocks\<rparr>"
        "concat blocks = (concat (sub_passes_main st))[i := p1]"
      by auto
    have "sub_above (Suc j) (concat (sub_passes_main st1) ! j)"
      if "j < length (concat (sub_passes_main st1))" for j
      using that ab above [OF Sub] b by (cases "j = i") simp_all
    with ok1 b show ?thesis by (simp add: pass_ordered_iff)
  qed
qed

lemma pass_ordered_grow:
  assumes ord: "pass_ordered st"
  shows "pass_ordered (st\<lparr>sub_passes_main :=
            fst (append_and_get_index sub_pass_block_size (PassBase_new name sh) (sub_passes_main st))\<rparr>)"
proof -
  from ord have ok: "pass_ok st"
    and ab: "\<forall>j < length (concat (sub_passes_main st)).
               sub_above (Suc j) (concat (sub_passes_main st) ! j)"
    by (simp_all add: pass_ordered_iff)
  have new: "sub_above lo (PassBase_new name sh)" for lo
    by (simp add: sub_above_def PassBase_new_def)
  from pass_ok_grow [OF ok, of name sh] ab new show ?thesis
    by (auto simp add: pass_ordered_iff concat_append_and_get_index nth_append less_Suc_eq)
qed

lemma pass_ordered_sub:
  assumes ord: "pass_ordered st" and room: "length (concat (sub_passes_main st)) < 2 ^ 32"
    and s: "sub name r st = Inr (st2, r2)"
  shows "pass_ordered st2 \<and>
         length (concat (sub_passes_main st2)) = Suc (length (concat (sub_passes_main st)))"
proof -
  from ord have ok: "pass_ok st"
    and ab: "\<forall>j < length (concat (sub_passes_main st)).
               sub_above (Suc j) (concat (sub_passes_main st) ! j)"
    by (simp_all add: pass_ordered_iff)
  from ok have inv: "spv_inv sub_pass_block_size (sub_passes_main st)" by (simp add: pass_ok_def)
  from s obtain p where g: "get_pass st r = Inr p"
    by (auto simp add: sub_def split: sum.splits)
  let ?st1 = "st\<lparr>sub_passes_main :=
              fst (append_and_get_index sub_pass_block_size (PassBase_new name (shader p))
                     (sub_passes_main st))\<rparr>"
  let ?p1 = "p\<lparr>headers := headers p @ [\<lparr>header_type = Type_SubPass,
                 header_index = of_nat (length (concat (sub_passes_main st)))\<rparr>]\<rparr>"
  from s sub_unfold [OF ok g, of name] have put: "put_pass ?st1 r ?p1 = Inr st2"
    by (auto split: sum.splits)
  have ord1: "pass_ordered ?st1" using ord by (rule pass_ordered_grow)
  have g1: "get_pass ?st1 r = Inr p" using ok g by (rule get_pass_grow)
  have len: "length (concat (sub_passes_main ?st1)) = Suc (length (concat (sub_passes_main st)))"
    by (simp add: concat_append_and_get_index)
  have "pass_base_ok (Suc (length (concat (sub_passes_main st)))) ?p1"
    using get_pass_ok [OF ok g] by (rule pass_base_ok_sub_header)
  then have p1: "pass_base_ok (length (concat (sub_passes_main ?st1))) ?p1"
    by (simp only: len)
  have above: "sub_above (Suc i) ?p1" if "r = Sub i" for i
  proof -
    from get_pass_Sub [OF inv] g that
    have i: "i < length (concat (sub_passes_main st))" "p = concat (sub_passes_main st) ! i"
      by simp_all
    with ab have "sub_above (Suc i) p" by simp
    with i(1) room show ?thesis
      by (simp add: sub_above_def unat_of_nat_32)
  qed
  from pass_ordered_put [OF ord1 g1 p1 above put] len show ?thesis by simp
qed

lemma sub_size:
  assumes ok: "pass_ok st" and s: "sub name r st = Inr (st2, r2)"
  shows "length (concat (sub_passes_main st2)) = Suc (length (concat (sub_passes_main st)))"
proof -
  from s obtain p where g: "get_pass st r = Inr p"
    by (auto simp add: sub_def split: sum.splits)
  from ok have inv: "spv_inv sub_pass_block_size (sub_passes_main st)" by (simp add: pass_ok_def)
  let ?b = "fst (append_and_get_index sub_pass_block_size (PassBase_new name (shader p))
                     (sub_passes_main st))"
  from s sub_unfold [OF ok g, of name]
  obtain p1 where put: "put_pass (st\<lparr>sub_passes_main := ?b\<rparr>) r p1 = Inr st2"
    by (auto split: sum.splits)
  have inv1: "spv_inv sub_pass_block_size (sub_passes_main (st\<lparr>sub_passes_main := ?b\<rparr>))"
    using spv_inv_append_and_get_index [OF inv block_size_pos] by simp
  show ?thesis
  proof (cases r)
    case Root
    with put show ?thesis by (auto simp add: put_pass_def concat_append_and_get_index)
  next
    case (Sub i)
    from get_pass_Sub [OF inv] g Sub have "i < length (concat (sub_passes_main st))" by simp
    then have i: "i < length (concat (sub_passes_main (st\<lparr>sub_passes_main := ?b\<rparr>)))"
      by (simp add: concat_append_and_get_index)
    from put_pass_Sub [OF inv1 i, of p1] put Sub show ?thesis
      by (auto simp add: concat_append_and_get_index)
  qed
qed

lemma sub_above_record_op:
  "record_op debug gpu x p = Inr p1 \<Longrightarrow> sub_above lo p \<Longrightarrow> sub_above lo p1"
  by (blast intro: sub_above_appended appended_record_op)

lemma pass_ordered_record_call:
  assumes ord: "pass_ordered st" and c: "record_call debug gpu c st = Inr st1"
    and room: "length (concat (sub_passes_main st1)) \<le> 2 ^ 32"
  shows "pass_ordered st1"
proof (cases c)
  case (call_op r x)
  from ord have ok: "pass_ok st"
    and ab: "\<forall>j < length (concat (sub_passes_main st)).
               sub_above (Suc j) (concat (sub_passes_main st) ! j)"
    by (simp_all add: pass_ordered_iff)
  from ok have inv: "spv_inv sub_pass_block_size (sub_passes_main st)" by (simp add: pass_ok_def)
  from call_op c obtain p p1 where g: "get_pass st r = Inr p"
    and x: "record_op debug gpu x p = Inr p1" and put: "put_pass st r p1 = Inr st1"
    by (auto simp add: record_call_def split: sum.splits)
  have p1: "pass_base_ok (length (concat (sub_passes_main st))) p1"
    using pass_base_ok_appended [OF appended_record_op [OF x] get_pass_ok [OF ok g]] .
  have above: "sub_above (Suc i) p1" if "r = Sub i" for i
  proof -
    from get_pass_Sub [OF inv] g that
    have "i < length (concat (sub_passes_main st))" "p = concat (sub_passes_main st) ! i"
      by simp_all
    with ab have "sub_above (Suc i) p" by simp
    with x show ?thesis by (rule sub_above_record_op)
  qed
  from pass_ordered_put [OF ord g p1 above put] show ?thesis by simp
next
  case (call_sub r name)
  from ord have ok: "pass_ok st" by (simp add: pass_ordered_iff)
  from call_sub c obtain res where "sub name r st = Inr res" "st1 = fst res"
    by (auto simp add: record_call_def split: sum.splits)
  then have s: "sub name r st = Inr (st1, snd res)" by simp
  from sub_size [OF ok s]
  have "length (concat (sub_passes_main st1)) = Suc (length (concat (sub_passes_main st)))" .
  with room have "length (concat (sub_passes_main st)) < 2 ^ 32" by simp
  from pass_ordered_sub [OF ord this s] show ?thesis by simp
qed

lemma record_call_size:
  assumes ok: "pass_ok st" and c: "record_call debug gpu c st = Inr st1"
  shows "length (concat (sub_passes_main st)) \<le> length (concat (sub_passes_main st1))"
proof (cases c)
  case (call_op r x)
  with c obtain p p1 where g: "get_pass st r = Inr p" and put: "put_pass st r p1 = Inr st1"
    by (auto simp add: record_call_def split: sum.splits)
  from ok have inv: "spv_inv sub_pass_block_size (sub_passes_main st)" by (simp add: pass_ok_def)
  show ?thesis
  proof (cases r)
    case Root
    with put show ?thesis by (auto simp add: put_pass_def)
  next
    case (Sub i)
    from get_pass_Sub [OF inv] g Sub have i: "i < length (concat (sub_passes_main st))" by simp
    from put_pass_Sub [OF inv i, of p1] put Sub show ?thesis by auto
  qed
next
  case (call_sub r name)
  with c obtain res where "sub name r st = Inr res" "st1 = fst res"
    by (auto simp add: record_call_def split: sum.splits)
  then have s: "sub name r st = Inr (st1, snd res)" by simp
  from sub_size [OF ok s] show ?thesis by simp
qed

lemma record_calls_size:
  "pass_ok st \<Longrightarrow> record_calls debug gpu cs st = Inr st1 \<Longrightarrow>
     length (concat (sub_passes_main st)) \<le> length (concat (sub_passes_main st1))"
proof (induction cs arbitrary: st)
  case Nil
  then show ?case by simp
next
  case (Cons c cs)
  from Cons.prems(2) obtain st2 where c: "record_call debug gpu c st = Inr st2"
    and r: "record_calls debug gpu cs st2 = Inr st1"
    by (auto split: sum.splits)
  from record_call_size [OF Cons.prems(1) c] Cons.IH [OF pass_ok_record_call [OF Cons.prems(1) c] r]
  show ?case by simp
qed

lemma pass_ordered_record_calls:
  "pass_ordered st \<Longrightarrow> record_calls debug gpu cs st = Inr st1 \<Longrightarrow>
     length (concat (sub_passes_main st1)) \<le> 2 ^ 32 \<Longrightarrow> pass_ordered st1"
proof (induction cs arbitrary: st)
  case Nil
  then show ?case by simp
next
  case (Cons c cs)
  from Cons.prems(2) obtain st2 where c: "record_call debug gpu c st = Inr st2"
    and r: "record_calls debug gpu cs st2 = Inr st1"
    by (auto split: sum.splits)
  from Cons.prems(1) have ok: "pass_ok st" by (simp add: pass_ordered_iff)
  from record_calls_size [OF pass_ok_record_call [OF ok c] r] Cons.prems(3)
  have "length (concat (sub_passes_main st2)) \<le> 2 ^ 32" by simp
  from pass_ordered_record_call [OF Cons.prems(1) c this] have "pass_ordered st2" .
  from Cons.IH [OF this r Cons.prems(3)] show ?case .
qed

lemma pass_ordered_init: "pass_ordered (Pass_init st)"
  by (simp add: pass_ordered_iff pass_ok_init) (simp add: Pass_init_def)

lemma record_calls_example:
  "record_calls True gpu_example calls_example (Pass_init (Pass_new ''main'')) = Inr st_example"
  by (simp add: calls_example_def st_example_def inner_example_def Pass_init_def Pass_new_def
      PassBase_new_def record_call_def get_pass_def put_pass_def sub_def shader_set_def
      barrier_def assign_command_def create_command_def append_and_get_index_def
      spv_get_def spv_set_def sub_pass_block_size_def Let_def)

lemma st_example_items:
  "recorded_items (sub_passes_main st_example) (commands (root_pass st_example))
      (headers (root_pass st_example))
      [Command Type_ShaderBind (shader_bind_cmd 1),
       SubTree ''inner'' [Command Type_Barrier (barrier_cmd 3)], Command Type_Barrier (barrier_cmd 4)]"
proof -
  have get0: "spv_get sub_pass_block_size (sub_passes_main st_example) (unat (0 :: 32 word))
      = Inr inner_example"
    by (simp add: spv_get_def st_example_def sub_pass_block_size_def)
  have inner: "recorded_items (sub_passes_main st_example) (commands inner_example)
      (headers inner_example) [Command Type_Barrier (barrier_cmd 3)]"
    using recorded_items.rec_Command [of "\<lparr>header_type = Type_Barrier, header_index = 0\<rparr>"
        "[barrier_cmd 3]" "sub_passes_main st_example" "[]" "[]"]
    by (simp add: inner_example_def recorded_items.rec_Nil)
  have tail: "recorded_items (sub_passes_main st_example) [shader_bind_cmd 1, barrier_cmd 4]
      [\<lparr>header_type = Type_Barrier, header_index = 1\<rparr>] [Command Type_Barrier (barrier_cmd 4)]"
    using recorded_items.rec_Command [of "\<lparr>header_type = Type_Barrier, header_index = 1\<rparr>"
        "[shader_bind_cmd 1, barrier_cmd 4]" "sub_passes_main st_example" "[]" "[]"]
    by (simp add: recorded_items.rec_Nil)
  have mid: "recorded_items (sub_passes_main st_example) [shader_bind_cmd 1, barrier_cmd 4]
      [\<lparr>header_type = Type_SubPass, header_index = 0\<rparr>,
       \<lparr>header_type = Type_Barrier, header_index = 1\<rparr>]
      [SubTree ''inner'' [Command Type_Barrier (barrier_cmd 3)], Command Type_Barrier (barrier_cmd 4)]"
    using recorded_items.rec_SubPass [of "\<lparr>header_type = Type_SubPass, header_index = 0\<rparr>"
        "sub_passes_main st_example" inner_example, OF _ _ inner tail] get0
    by (simp add: inner_example_def)
  show ?thesis
    using recorded_items.rec_Command [of "\<lparr>header_type = Type_ShaderBind, header_index = 0\<rparr>"
        "[shader_bind_cmd 1, barrier_cmd 4]" "sub_passes_main st_example", OF _ _ _ mid]
    by (simp add: st_example_def)
qed

text \<open>
  C1. For every pass, root or sub-pass, and every tree that its headers record over the
  shared container (item by item in the order of the headers), submission returns, given
  enough nesting depth, and what it does to any state is exactly the replay of the tree in
  depth-first order: the items in header order, a sub-pass whole at the place of its
  header, nothing for a placeholder. And every state built by recording calls after
  \<^verbatim>\<open>init()\<close>, with at most \<open>2 ^ 32\<close> sub-passes, records such a tree.
\<close>

theorem submit_depth_first:
  assumes g: "get_pass st r = Inr p"
  shows "(\<forall>items. recorded_items (sub_passes_main st) (commands p) (headers p) items \<longrightarrow>
            (\<exists>n. \<forall>m \<ge> n. \<forall>s. submit m (dev :: 's device) (sub_passes_main st) p s
               = Some (Inr (replay dev (item_events (SubTree (debug_name p) items)) s)))) \<and>
         (\<forall>debug gpu calls st0.
            record_calls debug gpu calls (Pass_init st0) = Inr st \<and>
            length (concat (sub_passes_main st)) \<le> 2 ^ 32 \<longrightarrow>
            (\<exists>items. recorded_items (sub_passes_main st) (commands p) (headers p) items))"
proof (intro conjI allI impI)
  fix items
  assume "recorded_items (sub_passes_main st) (commands p) (headers p) items"
  then show "\<exists>n. \<forall>m \<ge> n. \<forall>s. submit m dev (sub_passes_main st) p s
               = Some (Inr (replay dev (item_events (SubTree (debug_name p) items)) s))"
    by (rule submit_follows_tree)
next
  fix debug gpu calls st0
  assume a: "record_calls debug gpu calls (Pass_init st0) = Inr st \<and>
            length (concat (sub_passes_main st)) \<le> 2 ^ 32"
  from pass_ordered_record_calls [OF pass_ordered_init] a have "pass_ordered st" by blast
  then show "\<exists>items. recorded_items (sub_passes_main st) (commands p) (headers p) items"
    using g by (rule ordered_pass_has_items)
qed

theorem submit_depth_first_witness:
  "record_calls True gpu_example calls_example (Pass_init (Pass_new ''main'')) = Inr st_example \<and>
   (\<exists>items. recorded_items (sub_passes_main st_example) (commands (root_pass st_example))
              (headers (root_pass st_example)) items) \<and>
   (\<exists>n. \<forall>m \<ge> n. submit m log_device (sub_passes_main st_example) (root_pass st_example) []
      = Some (Inr [Group_begin ''main'', Execute Type_ShaderBind (shader_bind_cmd 1),
                   Group_begin ''inner'', Execute Type_Barrier (barrier_cmd 3), Group_end,
                   Execute Type_Barrier (barrier_cmd 4), Group_end]))"
proof -
  have g: "get_pass st_example Root = Inr (root_pass st_example)" by (simp add: get_pass_def)
  note t = submit_depth_first [OF g, where dev = log_device]
  have size: "length (concat (sub_passes_main st_example)) \<le> 2 ^ 32"
    by (simp add: st_example_def)
  from t record_calls_example size
  have ex: "\<exists>items. recorded_items (sub_passes_main st_example) (commands (root_pass st_example))
              (headers (root_pass st_example)) items" by blast
  note root = st_example_items
  from t root obtain n where
    "\<forall>m \<ge> n. \<forall>s. submit m log_device (sub_passes_main st_example) (root_pass st_example) s
       = Some (Inr (replay log_device (item_events (SubTree (debug_name (root_pass st_example))
           [Command Type_ShaderBind (shader_bind_cmd 1),
            SubTree ''inner'' [Command Type_Barrier (barrier_cmd 3)],
            Command Type_Barrier (barrier_cmd 4)])) s))"
    by blast
  then have "\<forall>m \<ge> n. submit m log_device (sub_passes_main st_example) (root_pass st_example) []
      = Some (Inr [Group_begin ''main'', Execute Type_ShaderBind (shader_bind_cmd 1),
                   Group_begin ''inner'', Execute Type_Barrier (barrier_cmd 3), Group_end,
                   Execute Type_Barrier (barrier_cmd 4), Group_end])"
    by (simp add: replay_def replay_event_def log_device_def st_example_def)
  with record_calls_example ex show ?thesis by blast
qed

section \<open>Serialization follows the recorded tree\<close>

lemma indentation_Suc: "indentation (Suc d) = indentation d @ ''  ''"
proof -
  have "replicate (Suc d) ''  '' = replicate d ''  '' @ [''  '']"
    by (simp add: replicate_append_same)
  then show ?thesis by (simp add: indentation_def)
qed

lemma render_Nil: "render ser base [] = []"
  by (simp add: render_def)

lemma render_Cons: "render ser base (l # ls) = render_line ser base l @ render ser base ls"
  by (simp add: render_def)

lemma render_append: "render ser base (ls1 @ ls2) = render ser base ls1 @ render ser base ls2"
  by (simp add: render_def)

lemma serialize_headers_follow_items:
  "recorded_items sp cs hs items \<Longrightarrow>
     \<exists>n. \<forall>m \<ge> n. \<forall>base d ss. serialize_headers m ser sp cs hs (base @ indentation d) ss
        = Some (Inr (ss @ render ser base (concat (map (item_lines ser d) items))))"
proof (induction rule: recorded_items.induct)
  case (rec_Nil sp cs)
  show ?case by (simp add: render_Nil)
next
  case (rec_None h sp cs hs items)
  from rec_None.IH obtain n where
    n: "\<forall>m \<ge> n. \<forall>base d ss. serialize_headers m ser sp cs hs (base @ indentation d) ss
        = Some (Inr (ss @ render ser base (concat (map (item_lines ser d) items))))"
    by blast
  with rec_None.hyps(1)
  have "\<forall>m \<ge> n. \<forall>base d ss. serialize_headers m ser sp cs (h # hs) (base @ indentation d) ss
        = Some (Inr (ss @ render ser base (concat (map (item_lines ser d) (Placeholder # items)))))"
    by simp
  then show ?case by blast
next
  case (rec_SubPass h sp q sub_items cs hs items)
  from rec_SubPass.IH obtain n1 n2 where
    n1: "\<forall>m \<ge> n1. \<forall>base d ss.
        serialize_headers m ser sp (commands q) (headers q) (base @ indentation d) ss
        = Some (Inr (ss @ render ser base (concat (map (item_lines ser d) sub_items))))"
    and n2: "\<forall>m \<ge> n2. \<forall>base d ss. serialize_headers m ser sp cs hs (base @ indentation d) ss
        = Some (Inr (ss @ render ser base (concat (map (item_lines ser d) items))))"
    by blast
  have "serialize_headers m ser sp cs (h # hs) (base @ indentation d) ss
        = Some (Inr (ss @ render ser base (concat (map (item_lines ser d)
            (SubTree (debug_name q) sub_items # items)))))"
    if m: "m \<ge> max (Suc n1) n2" for m base d ss
  proof -
    from m obtain m1 where m1: "m = Suc m1" "m1 \<ge> n1" by (cases m) auto
    from n1 m1(2)
    have "serialize_headers m1 ser sp (commands q) (headers q) (base @ indentation (Suc d))
            ((base @ indentation d) @ ''.'' @ debug_name q @ endl)
          = Some (Inr (((base @ indentation d) @ ''.'' @ debug_name q @ endl) @
               render ser base (concat (map (item_lines ser (Suc d)) sub_items))))"
      by blast
    then have q: "serialize m ser sp q (base @ indentation d)
        = Some (Inr (render ser base (item_lines ser d (SubTree (debug_name q) sub_items))))"
      by (simp add: m1(1) indentation_Suc render_Cons render_line_def)
    from m n2 have r: "\<And>ss1. serialize_headers m ser sp cs hs (base @ indentation d) ss1
        = Some (Inr (ss1 @ render ser base (concat (map (item_lines ser d) items))))" by simp
    from rec_SubPass.hyps(1,2) q r show ?thesis
      by (simp add: render_append del: item_lines.simps)
  qed
  then show ?case by blast
next
  case (rec_Command h cs sp hs items)
  from rec_Command.IH obtain n where
    n: "\<forall>m \<ge> n. \<forall>base d ss. serialize_headers m ser sp cs hs (base @ indentation d) ss
        = Some (Inr (ss @ render ser base (concat (map (item_lines ser d) items))))"
    by blast
  with rec_Command.hyps(1,2,3)
  have "\<forall>m \<ge> n. \<forall>base d ss. serialize_headers m ser sp cs (h # hs) (base @ indentation d) ss
        = Some (Inr (ss @ render ser base (concat (map (item_lines ser d)
            (Command (header_type h) (cs ! unat (header_index h)) # items)))))"
    by (simp add: render_Cons render_line_def)
  then show ?case by blast
qed

lemma serialize_follows_tree:
  assumes "recorded_items sp (commands p) (headers p) items"
  shows "\<exists>n. \<forall>m \<ge> n. \<forall>line_prefix. serialize m ser sp p line_prefix
           = Some (Inr (render ser line_prefix (item_lines ser 0 (SubTree (debug_name p) items))))"
proof -
  from serialize_headers_follow_items [OF assms, of ser] obtain n where
    n: "\<forall>m \<ge> n. \<forall>base d ss. serialize_headers m ser sp (commands p) (headers p)
          (base @ indentation d) ss
        = Some (Inr (ss @ render ser base (concat (map (item_lines ser d) items))))" by blast
  have "serialize m ser sp p line_prefix
           = Some (Inr (render ser line_prefix (item_lines ser 0 (SubTree (debug_name p) items))))"
    if "m \<ge> Suc n" for m line_prefix
  proof -
    from that obtain m1 where m1: "m = Suc m1" "m1 \<ge> n" by (cases m) auto
    from n m1(2)
    have "serialize_headers m1 ser sp (commands p) (headers p) (line_prefix @ indentation (Suc 0))
            (line_prefix @ ''.'' @ debug_name p @ endl)
          = Some (Inr ((line_prefix @ ''.'' @ debug_name p @ endl) @
               render ser line_prefix (concat (map (item_lines ser (Suc 0)) items))))"
      by blast
    then show ?thesis
      by (simp add: m1(1) indentation_def render_Cons render_line_def)
  qed
  then show ?thesis by blast
qed

inductive_cases recorded_items_NilE: "recorded_items sp cs [] items"
inductive_cases recorded_items_ConsE: "recorded_items sp cs (h # hs) items"

lemma recorded_items_unique:
  "recorded_items sp cs hs items \<Longrightarrow> recorded_items sp cs hs items1 \<Longrightarrow> items1 = items"
proof (induction arbitrary: items1 rule: recorded_items.induct)
  case (rec_Nil sp cs)
  then show ?case by (auto elim: recorded_items_NilE)
next
  case (rec_None h sp cs hs items)
  from rec_None.prems rec_None.hyps(1) rec_None.IH show ?case
    by (auto elim!: recorded_items_ConsE)
next
  case (rec_SubPass h sp q sub_items cs hs items)
  from rec_SubPass.prems rec_SubPass.hyps(1,2) rec_SubPass.IH show ?case
    by (auto elim!: recorded_items_ConsE)
next
  case (rec_Command h cs sp hs items)
  from rec_Command.prems rec_Command.hyps(1,2) rec_Command.IH show ?case
    by (auto elim!: recorded_items_ConsE)
qed

lemma Pass_init_eq:
  "debug_name (root_pass st1) = debug_name (root_pass st0) \<Longrightarrow>
   shader (root_pass st1) = shader (root_pass st0) \<Longrightarrow> Pass_init st1 = Pass_init st0"
  by (simp add: Pass_init_def PassBase.equality)

text \<open>
  C6. Take two passes with the same name and the same bound shader, and record the same
  sequence of calls into both after \<^verbatim>\<open>init()\<close> (at most \<open>2 ^ 32\<close> sub-passes). Then the
  first records a tree, and with enough nesting depth allowed serialization of either root
  returns, for every prefix, the same string: the text of that tree, in which a line at
  nesting depth \<open>d\<close> starts with the prefix followed by \<open>d\<close> indentation steps of two
  spaces each. The same text comes out of any other pass, in any container, that records
  the same tree under the same name.
\<close>

theorem serialize_deterministic_indented:
  assumes r1: "record_calls debug gpu calls (Pass_init st0) = Inr st1"
    and r2: "record_calls debug gpu calls (Pass_init st0') = Inr st2"
    and name: "debug_name (root_pass st0') = debug_name (root_pass st0)"
    and sh: "shader (root_pass st0') = shader (root_pass st0)"
    and room: "length (concat (sub_passes_main st1)) \<le> 2 ^ 32"
  shows "\<exists>items n.
     recorded_items (sub_passes_main st1) (commands (root_pass st1)) (headers (root_pass st1)) items \<and>
     (\<forall>m \<ge> n. \<forall>line_prefix.
        serialize m ser (sub_passes_main st1) (root_pass st1) line_prefix
          = Some (Inr (render ser line_prefix
                         (item_lines ser 0 (SubTree (debug_name (root_pass st1)) items)))) \<and>
        serialize m ser (sub_passes_main st2) (root_pass st2) line_prefix
          = serialize m ser (sub_passes_main st1) (root_pass st1) line_prefix) \<and>
     (\<forall>d. indentation (Suc d) = indentation d @ ''  '') \<and>
     (\<forall>sp p. recorded_items sp (commands p) (headers p) items \<and>
             debug_name p = debug_name (root_pass st1) \<longrightarrow>
        (\<exists>n1. \<forall>m \<ge> n1. \<forall>line_prefix.
           serialize m ser sp p line_prefix
             = Some (Inr (render ser line_prefix
                            (item_lines ser 0 (SubTree (debug_name (root_pass st1)) items))))))"
proof -
  from Pass_init_eq [OF name sh] r1 r2 have same: "st2 = st1" by simp
  have g: "get_pass st1 Root = Inr (root_pass st1)" by (simp add: get_pass_def)
  from pass_ordered_record_calls [OF pass_ordered_init r1 room] have "pass_ordered st1" .
  from ordered_pass_has_items [OF this g] obtain items where
    items: "recorded_items (sub_passes_main st1) (commands (root_pass st1))
              (headers (root_pass st1)) items" by blast
  from serialize_follows_tree [OF items, of ser] obtain n where
    n: "\<forall>m \<ge> n. \<forall>line_prefix. serialize m ser (sub_passes_main st1) (root_pass st1) line_prefix
          = Some (Inr (render ser line_prefix
                         (item_lines ser 0 (SubTree (debug_name (root_pass st1)) items))))"
    by blast
  have other: "\<exists>n1. \<forall>m \<ge> n1. \<forall>line_prefix. serialize m ser sp p line_prefix
             = Some (Inr (render ser line_prefix
                            (item_lines ser 0 (SubTree (debug_name (root_pass st1)) items))))"
    if "recorded_items sp (commands p) (headers p) items \<and> debug_name p = debug_name (root_pass st1)"
    for sp p
    using serialize_follows_tree [of sp p items ser] that by simp
  show ?thesis
    apply (rule exI [of _ items])
    apply (rule exI [of _ n])
    apply (intro conjI)
       apply (rule items)
    using n same apply simp
    using indentation_Suc apply blast
    using other apply blast
    done
qed

theorem serialize_deterministic_indented_witness:
  "record_calls True gpu_example calls_example (Pass_init (Pass_new ''main'')) = Inr st_example \<and>
   (\<exists>n. \<forall>m \<ge> n. serialize m ser_example (sub_passes_main st_example) (root_pass st_example) ''> ''
      = Some (Inr (''> .main'' @ endl @ ''>   cmd'' @ endl @ ''>   .inner'' @ endl @
                   ''>     cmd'' @ endl @ ''>   cmd'' @ endl)))"
proof -
  have room: "length (concat (sub_passes_main st_example)) \<le> 2 ^ 32"
    by (simp add: st_example_def)
  from serialize_deterministic_indented [OF record_calls_example record_calls_example refl refl room,
      of ser_example]
  obtain items n where
    1: "recorded_items (sub_passes_main st_example) (commands (root_pass st_example))
          (headers (root_pass st_example)) items"
    and 2: "\<forall>m \<ge> n. \<forall>line_prefix.
        serialize m ser_example (sub_passes_main st_example) (root_pass st_example) line_prefix
          = Some (Inr (render ser_example line_prefix
                         (item_lines ser_example 0 (SubTree (debug_name (root_pass st_example)) items))))"
    by blast
  from recorded_items_unique [OF st_example_items 1]
  have items: "items = [Command Type_ShaderBind (shader_bind_cmd 1),
       SubTree ''inner'' [Command Type_Barrier (barrier_cmd 3)], Command Type_Barrier (barrier_cmd 4)]" .
  have "render ser_example ''> '' (item_lines ser_example 0 (SubTree (debug_name (root_pass st_example)) items))
      = ''> .main'' @ endl @ ''>   cmd'' @ endl @ ''>   .inner'' @ endl @
                   ''>     cmd'' @ endl @ ''>   cmd'' @ endl"
    by (simp add: items render_def render_line_def indentation_def ser_example_def st_example_def
        numeral_2_eq_2)
  with 2 have "\<forall>m \<ge> n. serialize m ser_example (sub_passes_main st_example) (root_pass st_example) ''> ''
      = Some (Inr (''> .main'' @ endl @ ''>   cmd'' @ endl @ ''>   .inner'' @ endl @
                   ''>     cmd'' @ endl @ ''>   cmd'' @ endl))"
    by simp
  with record_calls_example show ?thesis by blast
qed

section \<open>Properties of the sortable pass\<close>

lemma mset_insort_by: "mset (insort_by lt x ys) = add_mset x (mset ys)"
  by (induction ys) simp_all

lemma mset_std_sort: "mset (std_sort lt xs) = mset xs"
  unfolding std_sort_def by (induction xs) (simp_all add: mset_insort_by)

lemma set_insort_by: "set (insort_by lt x ys) = insert x (set ys)"
  using mset_insort_by [of lt x ys, THEN arg_cong, of set_mset] by simp

lemma sorted_insort_by:
  assumes asym: "\<And>a b. lt a b \<Longrightarrow> \<not> lt b a"
    and trans: "\<And>a b c. \<not> lt b a \<Longrightarrow> \<not> lt c b \<Longrightarrow> \<not> lt c a"
  shows "sorted_wrt (\<lambda>a b. \<not> lt b a) ys \<Longrightarrow> sorted_wrt (\<lambda>a b. \<not> lt b a) (insort_by lt x ys)"
proof (induction ys)
  case Nil
  then show ?case by simp
next
  case (Cons y ys)
  show ?case
  proof (cases "lt y x")
    case True
    from Cons.prems have "\<forall>z \<in> set ys. \<not> lt z y" and "sorted_wrt (\<lambda>a b. \<not> lt b a) ys"
      by simp_all
    with True asym [OF True] Cons.IH show ?thesis
      by (simp add: set_insort_by)
  next
    case False
    from Cons.prems have "\<forall>z \<in> set ys. \<not> lt z y" by simp
    with False have "\<forall>z \<in> set ys. \<not> lt z x" using trans [of y x] by blast
    with False Cons.prems show ?thesis by simp
  qed
qed

lemma sorted_std_sort:
  assumes asym: "\<And>a b. lt a b \<Longrightarrow> \<not> lt b a"
    and trans: "\<And>a b c. \<not> lt b a \<Longrightarrow> \<not> lt c b \<Longrightarrow> \<not> lt c a"
  shows "sorted_wrt (\<lambda>a b. \<not> lt b a) (std_sort lt xs)"
  unfolding std_sort_def
  by (induction xs) (simp_all add: sorted_insort_by [of lt, OF asym trans])

lemma std_sort_sorted_id:
  "sorted_wrt (\<lambda>a b. \<not> lt b a) xs \<Longrightarrow> std_sort lt xs = xs"
proof (induction xs)
  case Nil
  show ?case by (simp add: std_sort_def)
next
  case (Cons x xs)
  then have ih: "std_sort lt xs = xs" and le: "\<forall>z \<in> set xs. \<not> lt z x" by simp_all
  have "std_sort lt (x # xs) = insort_by lt x (std_sort lt xs)" by (simp add: std_sort_def)
  also have "\<dots> = insort_by lt x xs" by (simp only: ih)
  also from le have "\<dots> = x # xs" by (cases xs) simp_all
  finally show ?case .
qed

lemma sort_less_asym: "sort_less values a b \<Longrightarrow> \<not> sort_less values b a"
  by (auto simp add: sort_less_def Let_def)

lemma sort_less_trans:
  "\<not> sort_less values b a \<Longrightarrow> \<not> sort_less values c b \<Longrightarrow> \<not> sort_less values c a"
  by (auto simp add: sort_less_def Let_def)

lemma sorted_sort_less:
  "sorted_wrt (\<lambda>a b. \<not> sort_less values b a) (std_sort (sort_less values) hs)"
  by (rule sorted_std_sort [OF sort_less_asym sort_less_trans])

lemma std_sort_idem:
  "std_sort (sort_less values) (std_sort (sort_less values) hs) = std_sort (sort_less values) hs"
  by (rule std_sort_sorted_id [OF sorted_sort_less])

text \<open>
  Any permutation of the headers in which no header is less than one before it is the
  sorted list: a sort that is not stable gives the same order, as long as no two headers
  are equal.
\<close>

lemma sorted_permutation_unique:
  assumes asym: "\<And>a b. lt a b \<Longrightarrow> \<not> lt b a"
    and total: "\<And>a b. a \<in> set xs \<Longrightarrow> b \<in> set xs \<Longrightarrow> a \<noteq> b \<Longrightarrow> lt a b \<or> lt b a"
  shows "mset ys = mset xs \<Longrightarrow> sorted_wrt (\<lambda>a b. \<not> lt b a) ys \<Longrightarrow> distinct xs \<Longrightarrow>
         mset zs = mset xs \<Longrightarrow> sorted_wrt (\<lambda>a b. \<not> lt b a) zs \<Longrightarrow> ys = zs"
  using total
proof (induction ys arbitrary: zs xs)
  case Nil
  then show ?case by simp
next
  case (Cons y ys)
  from Cons.prems(1,4) have m: "mset zs = add_mset y (mset ys)" by simp
  then obtain z zs1 where zs: "zs = z # zs1" by (cases zs) auto
  from Cons.prems(1,3) have dy: "distinct (y # ys)" by (metis distinct_count_atmost_1 set_mset_mset)
  from Cons.prems(3,4) have dz: "distinct zs" by (metis distinct_count_atmost_1 set_mset_mset)
  from Cons.prems(1,4) have sets: "set (y # ys) = set xs" "set zs = set xs"
    by (metis set_mset_mset)+
  have "y = z"
  proof (rule ccontr)
    assume ne: "y \<noteq> z"
    from sets zs have "y \<in> set xs" "z \<in> set xs" by auto
    from Cons.prems(6) [OF this ne] have "lt y z \<or> lt z y" .
    moreover from sets zs ne have "z \<in> set ys" "y \<in> set zs1" by auto
    with Cons.prems(2,5) zs have "\<not> lt z y" "\<not> lt y z" by auto
    ultimately show False by blast
  qed
  with m zs have m1: "mset zs1 = mset ys" by simp
  from Cons.prems(2) have s1: "sorted_wrt (\<lambda>a b. \<not> lt b a) ys" by simp
  from Cons.prems(5) zs have s2: "sorted_wrt (\<lambda>a b. \<not> lt b a) zs1" by simp
  from dy have d1: "distinct ys" by simp
  have tot: "\<And>a b. a \<in> set ys \<Longrightarrow> b \<in> set ys \<Longrightarrow> a \<noteq> b \<Longrightarrow> lt a b \<or> lt b a"
    using Cons.prems(6) sets(1) by auto
  from Cons.IH [OF refl s1 d1 m1 s2 tot] \<open>y = z\<close> zs show ?case by simp
qed

lemma PassSortable_sub_fields:
  assumes ok: "pass_ok (pass_main ps)"
  shows "headers (root_pass (pass_main (fst (PassSortable_sub name v ps))))
           = headers (root_pass (pass_main ps)) @
             [\<lparr>header_type = Type_SubPass,
               header_index = of_nat (length (concat (sub_passes_main (pass_main ps))))\<rparr>] \<and>
         sorting_values (fst (PassSortable_sub name v ps)) = sorting_values ps @ [v] \<and>
         sorted_flag (fst (PassSortable_sub name v ps)) = sorted_flag ps \<and>
         length (concat (sub_passes_main (pass_main (fst (PassSortable_sub name v ps)))))
           = Suc (length (concat (sub_passes_main (pass_main ps)))) \<and>
         snd (PassSortable_sub name v ps) = Sub (length (concat (sub_passes_main (pass_main ps))))"
proof -
  from ok have inv: "spv_inv sub_pass_block_size (sub_passes_main (pass_main ps))"
    by (simp add: pass_ok_def)
  from snd_append_and_get_index [OF inv block_size_pos]
  have idx: "snd (append_and_get_index sub_pass_block_size
       (PassBase_new name (shader (root_pass (pass_main ps)))) (sub_passes_main (pass_main ps)))
      = length (concat (sub_passes_main (pass_main ps)))" .
  show ?thesis
    by (simp add: PassSortable_sub_def Let_def case_prod_beta idx concat_append_and_get_index)
qed

lemma record_call_op_Sub:
  assumes ok: "pass_ok st" and c: "record_call debug gpu (call_op (Sub i) x) st = Inr st1"
  shows "root_pass st1 = root_pass st \<and>
         length (concat (sub_passes_main st1)) = length (concat (sub_passes_main st))"
proof -
  from c obtain p p1 where g: "get_pass st (Sub i) = Inr p"
    and put: "put_pass st (Sub i) p1 = Inr st1"
    by (auto simp add: record_call_def split: sum.splits)
  from ok have inv: "spv_inv sub_pass_block_size (sub_passes_main st)" by (simp add: pass_ok_def)
  from get_pass_Sub [OF inv g] have i: "i < length (concat (sub_passes_main st))" by simp
  from put_pass_Sub [OF inv i, of p1] put show ?thesis by auto
qed

lemma PassSortable_calls_fields:
  "pass_ok (pass_main ps) \<Longrightarrow> PassSortable_calls debug gpu cs ps = Inr ps1 \<Longrightarrow>
     headers (root_pass (pass_main ps1))
       = headers (root_pass (pass_main ps)) @
         map (\<lambda>i. \<lparr>header_type = Type_SubPass, header_index = of_nat i\<rparr>)
           [length (concat (sub_passes_main (pass_main ps)))
              ..< length (concat (sub_passes_main (pass_main ps))) + length (added_values cs)] \<and>
     sorting_values ps1 = sorting_values ps @ added_values cs \<and>
     sorted_flag ps1 = sorted_flag ps"
proof (induction cs arbitrary: ps)
  case Nil
  then show ?case by simp
next
  case (Cons c cs)
  let ?N = "length (concat (sub_passes_main (pass_main ps)))"
  from Cons.prems(2) obtain ps2 where c: "PassSortable_call debug gpu c ps = Inr ps2"
    and r: "PassSortable_calls debug gpu cs ps2 = Inr ps1"
    by (auto split: sum.splits)
  show ?case
  proof (cases c)
    case (sortable_sub name v)
    with c have ps2: "ps2 = fst (PassSortable_sub name v ps)"
      by (simp add: PassSortable_call_def)
    from pass_ok_PassSortable_sub [OF Cons.prems(1)] have ok2: "pass_ok (pass_main ps2)"
      by (simp add: ps2)
    have "[?N ..< Suc (?N + length (added_values cs))]
            = ?N # [Suc ?N ..< Suc (?N + length (added_values cs))]"
      by (rule upt_conv_Cons) simp
    then have u: "[?N ..< ?N + length (added_values (c # cs))]
                    = ?N # [Suc ?N ..< Suc ?N + length (added_values cs)]"
      by (simp add: sortable_sub del: upt_Suc)
    from PassSortable_sub_fields [OF Cons.prems(1), of name v]
    have f: "headers (root_pass (pass_main ps2))
         = headers (root_pass (pass_main ps)) @ [\<lparr>header_type = Type_SubPass, header_index = of_nat ?N\<rparr>]"
      "sorting_values ps2 = sorting_values ps @ [v]"
      "sorted_flag ps2 = sorted_flag ps"
      "length (concat (sub_passes_main (pass_main ps2))) = Suc ?N"
      by (simp_all add: ps2)
    have av: "added_values (c # cs) = v # added_values cs" by (simp add: sortable_sub)
    let ?f = "\<lambda>i. \<lparr>header_type = Type_SubPass, header_index = of_nat i :: 32 word\<rparr>"
    from Cons.IH [OF ok2 r]
    have ih: "headers (root_pass (pass_main ps1))
         = headers (root_pass (pass_main ps2)) @ map ?f [Suc ?N ..< Suc ?N + length (added_values cs)]"
      "sorting_values ps1 = sorting_values ps2 @ added_values cs"
      "sorted_flag ps1 = sorted_flag ps2"
      by (simp_all only: f(4))
    have "headers (root_pass (pass_main ps1))
         = headers (root_pass (pass_main ps)) @ map ?f (?N # [Suc ?N ..< Suc ?N + length (added_values cs)])"
      by (simp only: ih(1) f(1) list.map append_assoc append_Cons append_Nil)
    then have 1: "headers (root_pass (pass_main ps1))
         = headers (root_pass (pass_main ps)) @ map ?f [?N ..< ?N + length (added_values (c # cs))]"
      by (simp only: u)
    have 2: "sorting_values ps1 = sorting_values ps @ added_values (c # cs)"
      by (simp only: ih(2) f(2) av append_assoc append_Cons append_Nil)
    have 3: "sorted_flag ps1 = sorted_flag ps" by (simp only: ih(3) f(3))
    from 1 2 3 show ?thesis by (intro conjI)
  next
    case (sortable_op i x)
    with c obtain st where rc: "record_call debug gpu (call_op (Sub i) x) (pass_main ps) = Inr st"
      and ps2: "ps2 = ps\<lparr>pass_main := st\<rparr>"
      by (auto simp add: PassSortable_call_def split: sum.splits)
    from pass_ok_record_call [OF Cons.prems(1) rc] have ok2: "pass_ok (pass_main ps2)"
      by (simp add: ps2)
    from record_call_op_Sub [OF Cons.prems(1) rc] Cons.IH [OF ok2 r] show ?thesis
      by (simp add: ps2 sortable_op)
  qed
qed

lemma PassSortable_init_fields:
  "pass_ok (pass_main (PassSortable_init ps)) \<and>
   headers (root_pass (pass_main (PassSortable_init ps))) = [] \<and>
   sub_passes_main (pass_main (PassSortable_init ps)) = [] \<and>
   sorting_values (PassSortable_init ps) = [] \<and>
   sorted_flag (PassSortable_init ps) = False"
  by (simp add: PassSortable_init_def pass_ok_init) (simp add: Pass_init_def)

lemma sub_headers_distinct:
  "k \<le> 2 ^ 32 \<Longrightarrow>
     distinct (map (\<lambda>i. \<lparr>header_type = Type_SubPass, header_index = of_nat i :: 32 word\<rparr>) [0 ..< k])"
proof -
  assume k: "k \<le> 2 ^ 32"
  have "inj_on (\<lambda>i. \<lparr>header_type = Type_SubPass, header_index = of_nat i :: 32 word\<rparr>) (set [0 ..< k])"
  proof (rule inj_onI)
    fix i j
    assume "i \<in> set [0 ..< k]" "j \<in> set [0 ..< k]"
      and "\<lparr>header_type = Type_SubPass, header_index = of_nat i :: 32 word\<rparr>
         = \<lparr>header_type = Type_SubPass, header_index = of_nat j\<rparr>"
    with k have "i < 2 ^ 32" "j < 2 ^ 32" "(of_nat i :: 32 word) = of_nat j" by simp_all
    then show "i = j" by (metis unat_of_nat_32)
  qed
  then show ?thesis by (simp add: distinct_map)
qed

lemma sort_less_order:
  assumes "\<not> sort_less values b a" "header_index a \<noteq> header_index b"
  shows "values ! unat (header_index a) \<le> values ! unat (header_index b) \<and>
         (values ! unat (header_index a) = values ! unat (header_index b) \<longrightarrow>
            unat (header_index a) < unat (header_index b))"
proof -
  from assms(2) have "unat (header_index a) \<noteq> unat (header_index b)"
    by (simp add: word_unat_eq_iff)
  with assms(1) show ?thesis
    by (auto simp add: sort_less_def Let_def word_less_nat_alt)
qed

lemma PassSortable_calls_sorted:
  assumes ps: "PassSortable_calls debug gpu cs (PassSortable_init ps0) = Inr ps"
    and room: "length (added_values cs) \<le> 2 ^ 32"
  shows "\<exists>ps1. PassSortable_sort dbg ps = Inr ps1 \<and>
     headers (root_pass (pass_main ps))
       = map (\<lambda>i. \<lparr>header_type = Type_SubPass, header_index = of_nat i\<rparr>) [0 ..< length (added_values cs)] \<and>
     sorting_values ps = added_values cs \<and>
     sorting_values ps1 = added_values cs \<and>
     mset (headers (root_pass (pass_main ps1))) = mset (headers (root_pass (pass_main ps))) \<and>
     (\<forall>i j. i < j \<and> j < length (headers (root_pass (pass_main ps1))) \<longrightarrow>
        (let a = headers (root_pass (pass_main ps1)) ! i;
             b = headers (root_pass (pass_main ps1)) ! j;
             a_val = sorting_values ps1 ! unat (header_index a);
             b_val = sorting_values ps1 ! unat (header_index b)
         in a_val \<le> b_val \<and> (a_val = b_val \<longrightarrow> unat (header_index a) < unat (header_index b))))"
proof -
  let ?f = "\<lambda>i. \<lparr>header_type = Type_SubPass, header_index = of_nat i :: 32 word\<rparr>"
  let ?hs = "map ?f [0 ..< length (added_values cs)]"
  let ?vs = "added_values cs"
  let ?hs1 = "std_sort (sort_less ?vs) ?hs"
  from PassSortable_init_fields [of ps0]
  have "pass_ok (pass_main (PassSortable_init ps0))" by simp
  from PassSortable_init_fields [of ps0] PassSortable_calls_fields [OF this ps]
  have hs: "headers (root_pass (pass_main ps)) = ?hs" and vs: "sorting_values ps = ?vs"
    and fl: "sorted_flag ps = False"
    by simp_all
  have inb: "\<forall>h \<in> set ?hs. unat (header_index h) < length ?vs"
    using room by (auto simp add: unat_of_nat_32)
  let ?ps1 = "ps\<lparr>pass_main := (pass_main ps)\<lparr>root_pass := (root_pass (pass_main ps))
                        \<lparr>headers := ?hs1\<rparr>\<rparr>, sorted_flag := True\<rparr>"
  from inb have "\<not> list_ex (\<lambda>h. \<not> unat (header_index h) < length ?vs) ?hs"
    unfolding list_ex_iff by blast
  then have cond: "\<not> (2 \<le> length ?hs \<and>
      list_ex (\<lambda>h. \<not> unat (header_index h) < length ?vs) ?hs)" by blast
  have "\<not> list_ex (\<lambda>h. header_type h \<noteq> Type_SubPass) ?hs"
    unfolding list_ex_iff by auto
  then have cond0: "\<not> (2 \<le> length ?hs \<and> dbg \<and>
      list_ex (\<lambda>h. header_type h \<noteq> Type_SubPass) ?hs)" by blast
  have sort: "PassSortable_sort dbg ps = Inr ?ps1"
    unfolding PassSortable_sort_def Let_def fl hs vs
    by (simp only: cond cond0 if_True if_False simp_thms)
  have hs1: "headers (root_pass (pass_main ?ps1)) = ?hs1" and vs1: "sorting_values ?ps1 = ?vs"
    by (simp_all add: vs)
  have m: "mset ?hs1 = mset ?hs" by (rule mset_std_sort)
  have d: "distinct ?hs1"
    using sub_headers_distinct [OF room] m by (metis mset_eq_imp_distinct_iff)
  have s: "sorted_wrt (\<lambda>a b. \<not> sort_less ?vs b a) ?hs1" by (rule sorted_sort_less)
  have ord: "?vs ! unat (header_index (?hs1 ! i)) \<le> ?vs ! unat (header_index (?hs1 ! j)) \<and>
        (?vs ! unat (header_index (?hs1 ! i)) = ?vs ! unat (header_index (?hs1 ! j)) \<longrightarrow>
           unat (header_index (?hs1 ! i)) < unat (header_index (?hs1 ! j)))"
    if ij: "i < j" "j < length ?hs1" for i j
  proof -
    from sorted_wrt_nth_less [OF s ij] have nl: "\<not> sort_less ?vs (?hs1 ! j) (?hs1 ! i)" .
    from ij d have ne: "?hs1 ! i \<noteq> ?hs1 ! j" by (simp add: nth_eq_iff_index_eq)
    from ij have "?hs1 ! i \<in> set ?hs1" "?hs1 ! j \<in> set ?hs1" by simp_all
    then have "?hs1 ! i \<in> set ?hs" "?hs1 ! j \<in> set ?hs"
      using m by (metis set_mset_mset)+
    then have "header_type (?hs1 ! i) = Type_SubPass" "header_type (?hs1 ! j) = Type_SubPass"
      by auto
    with ne have "header_index (?hs1 ! i) \<noteq> header_index (?hs1 ! j)"
      by (metis Header.equality unit.exhaust)
    with nl show ?thesis by (rule sort_less_order)
  qed
  show ?thesis
    apply (rule exI [of _ ?ps1])
    apply (intro conjI)
         apply (rule sort)
        apply (rule hs)
       apply (rule vs)
      apply (rule vs1)
     apply (simp only: hs1 hs m)
    apply (simp only: hs1 vs1 Let_def)
    using ord apply blast
    done
qed

lemma sortable_example_calls:
  "PassSortable_calls True gpu_example sortable_calls_example (PassSortable_init (PassSortable_new ''t''))
     = Inr sortable_example"
  by (simp add: sortable_calls_example_def sortable_example_def PassSortable_call_def
      PassSortable_sub_def PassSortable_init_def PassSortable_new_def Pass_init_def Pass_new_def
      PassBase_new_def record_call_def get_pass_def put_pass_def barrier_def assign_command_def
      create_command_def append_and_get_index_def spv_get_def spv_set_def
      sub_pass_block_size_def Let_def)

lemma sortable_example_sort:
  "\<exists>ps1. PassSortable_sort True sortable_example = Inr ps1 \<and>
     map header_index (headers (root_pass (pass_main ps1))) = [1, 0, 2]"
  by (simp add: sortable_example_def PassSortable_sort_def std_sort_def sort_less_def Let_def)

text \<open>
  Outside what C5 is about: a sub-pass created inside a sub-pass of a sortable pass takes a
  position of the shared container without a sorting value, so the next sub-pass of the
  sortable pass gets an index that its sorting value does not have. After
  \<^verbatim>\<open>a = sub("a", 5); a.sub("nested"); sub("b", 1)\<close> sorting reads the sorting values out of
  bounds.
\<close>

lemma nested_sub_pass_misaligns_sorting_values:
  "PassSortable_calls True gpu_example [sortable_sub ''a'' 5] (PassSortable_init (PassSortable_new ''t''))
     = Inr ps \<Longrightarrow>
   record_call True gpu_example (call_sub (Sub 0) ''nested'') (pass_main ps) = Inr st \<Longrightarrow>
   PassSortable_calls True gpu_example [sortable_sub ''b'' 1] (ps\<lparr>pass_main := st\<rparr>) = Inr ps2 \<Longrightarrow>
   ps2 = nested_example \<and> PassSortable_sort dbg ps2 = Inl OutOfBounds"
  by (auto simp add: nested_example_def PassSortable_call_def PassSortable_sort_def
      PassSortable_sub_def PassSortable_init_def PassSortable_new_def Pass_init_def Pass_new_def
      PassBase_new_def record_call_def sub_def get_pass_def put_pass_def
      append_and_get_index_def spv_get_def spv_set_def sub_pass_block_size_def Let_def)

text \<open>
  C5. After \<^verbatim>\<open>init()\<close> and any sequence of calls that add sub-passes with sorting values
  (at most \<open>2 ^ 32\<close> of them) and record commands into these sub-passes, the k-th addition
  has left the header with index k and the k-th sorting value, and sorting succeeds; the
  sorted headers are a permutation of these headers, along which the sorting value never
  decreases, and of two headers with equal values the one added first comes first.
\<close>

theorem PassSortable_sort_orders_by_key:
  assumes ps: "PassSortable_calls debug gpu cs (PassSortable_init ps0) = Inr ps"
    and room: "length (added_values cs) \<le> 2 ^ 32"
  shows "\<exists>ps1. PassSortable_sort dbg ps = Inr ps1 \<and>
     headers (root_pass (pass_main ps))
       = map (\<lambda>i. \<lparr>header_type = Type_SubPass, header_index = of_nat i\<rparr>)
           [0 ..< length (added_values cs)] \<and>
     sorting_values ps = added_values cs \<and>
     sorting_values ps1 = added_values cs \<and>
     mset (headers (root_pass (pass_main ps1))) = mset (headers (root_pass (pass_main ps))) \<and>
     (\<forall>i j. i < j \<and> j < length (headers (root_pass (pass_main ps1))) \<longrightarrow>
        (let a = headers (root_pass (pass_main ps1)) ! i;
             b = headers (root_pass (pass_main ps1)) ! j;
             a_val = sorting_values ps1 ! unat (header_index a);
             b_val = sorting_values ps1 ! unat (header_index b)
         in a_val \<le> b_val \<and> (a_val = b_val \<longrightarrow> unat (header_index a) < unat (header_index b))))"
  using ps room by (rule PassSortable_calls_sorted)

theorem PassSortable_sort_orders_by_key_witness:
  "PassSortable_calls True gpu_example sortable_calls_example (PassSortable_init (PassSortable_new ''t''))
     = Inr sortable_example \<and>
   (\<exists>ps1. PassSortable_sort True sortable_example = Inr ps1 \<and>
     sorting_values ps1 = [5, 1, 5] \<and>
     map header_index (headers (root_pass (pass_main ps1))) = [1, 0, 2])"
proof -
  have room: "length (added_values sortable_calls_example) \<le> 2 ^ 32"
    by (simp add: sortable_calls_example_def)
  from PassSortable_sort_orders_by_key [OF sortable_example_calls room, of True]
  obtain ps1 where 1: "PassSortable_sort True sortable_example = Inr ps1"
    and 2: "sorting_values ps1 = added_values sortable_calls_example"
    by blast
  from 2 have 3: "sorting_values ps1 = [5, 1, 5]" by (simp add: sortable_calls_example_def)
  from sortable_example_sort 1
  have 4: "map header_index (headers (root_pass (pass_main ps1))) = [1, 0, 2]" by auto
  show ?thesis
    by (intro conjI exI [of _ ps1]) (rule sortable_example_calls 1 3 4)+
qed

lemma sorted_flag_PassSortable_sub:
  "sorted_flag (fst (PassSortable_sub name v ps)) = sorted_flag ps"
  by (simp add: PassSortable_sub_def Let_def case_prod_beta)

lemma PassSortable_sort_result:
  assumes "sorted_flag ps = False" "PassSortable_sort debug ps = Inr ps1"
  shows "headers (root_pass (pass_main ps1))
           = std_sort (sort_less (sorting_values ps)) (headers (root_pass (pass_main ps))) \<and>
         sorting_values ps1 = sorting_values ps \<and>
         sub_passes_main (pass_main ps1) = sub_passes_main (pass_main ps) \<and>
         sorted_flag ps1 = True"
  using assms by (auto simp add: PassSortable_sort_def Let_def split: if_splits)

lemma PassSortable_sort_sorted: "sorted_flag ps = True \<Longrightarrow> PassSortable_sort debug ps = Inr ps"
  by (simp add: PassSortable_sort_def)

lemma PassSortable_serialize_sorted:
  "sorted_flag ps = True \<Longrightarrow>
     PassSortable_serialize debug n ser ps line_prefix
       = Inr (ps, serialize n ser (sub_passes_main (pass_main ps)) (root_pass (pass_main ps))
                    line_prefix)"
  by (simp add: PassSortable_serialize_def)

lemma PassSortable_serialize_unsorted:
  "sorted_flag ps = False \<Longrightarrow> PassSortable_serialize debug n ser ps line_prefix = Inr (ps1, out) \<Longrightarrow>
     PassSortable_sort debug ps = Inr ps1 \<and>
     out = serialize n ser (sub_passes_main (pass_main ps1)) (root_pass (pass_main ps1)) line_prefix"
  by (auto simp add: PassSortable_serialize_def split: sum.splits)

text \<open>
  C8. \<^verbatim>\<open>init()\<close> clears the sorted flag and adding a sub-pass does not touch it. The first
  serialization of a pass whose flag is clear sorts the headers and sets the flag, and it
  succeeds on every pass built by \<^verbatim>\<open>init()\<close> and at most \<open>2 ^ 32\<close> sub-pass additions.
  After it, a second sort and any further serialization return the pass unchanged, the
  same request gives the same text, sorting the sorted headers once more would not change
  their order, and \<^verbatim>\<open>init()\<close> clears the flag again.
\<close>

theorem PassSortable_sorts_once_per_init:
  "sorted_flag (PassSortable_init ps0) = False \<and>
   sorted_flag (fst (PassSortable_sub name v ps)) = sorted_flag ps \<and>
   (\<forall>dbg gpu cs. PassSortable_calls dbg gpu cs (PassSortable_init ps0) = Inr ps \<and>
        length (added_values cs) \<le> 2 ^ 32 \<longrightarrow>
      sorted_flag ps = False \<and>
      (\<exists>ps1 out. PassSortable_serialize debug n ser ps line_prefix = Inr (ps1, out))) \<and>
   (\<forall>ps1 out. sorted_flag ps = False \<and>
        PassSortable_serialize debug n ser ps line_prefix = Inr (ps1, out) \<longrightarrow>
      headers (root_pass (pass_main ps1))
        = std_sort (sort_less (sorting_values ps)) (headers (root_pass (pass_main ps))) \<and>
      sorted_flag ps1 = True \<and>
      (\<forall>debug1. PassSortable_sort debug1 ps1 = Inr ps1) \<and>
      PassSortable_serialize debug n ser ps1 line_prefix = Inr (ps1, out) \<and>
      (\<forall>debug1 n1 ser1 prefix1. \<exists>out1. PassSortable_serialize debug1 n1 ser1 ps1 prefix1 = Inr (ps1, out1)) \<and>
      std_sort (sort_less (sorting_values ps1)) (headers (root_pass (pass_main ps1)))
        = headers (root_pass (pass_main ps1)) \<and>
      sorted_flag (PassSortable_init ps1) = False)"
proof (intro conjI allI impI)
  show "sorted_flag (PassSortable_init ps0) = False"
    by (simp add: PassSortable_init_def)
  show "sorted_flag (fst (PassSortable_sub name v ps)) = sorted_flag ps"
    by (rule sorted_flag_PassSortable_sub)
next
  fix dbg gpu cs
  assume a: "PassSortable_calls dbg gpu cs (PassSortable_init ps0) = Inr ps \<and>
        length (added_values cs) \<le> 2 ^ 32"
  then have ps: "PassSortable_calls dbg gpu cs (PassSortable_init ps0) = Inr ps"
    and room: "length (added_values cs) \<le> 2 ^ 32" by simp_all
  from PassSortable_init_fields [of ps0]
  have "pass_ok (pass_main (PassSortable_init ps0))" by simp
  from PassSortable_init_fields [of ps0] PassSortable_calls_fields [OF this ps]
  show fl: "sorted_flag ps = False" by simp
  from PassSortable_calls_sorted [OF ps room, of debug] obtain ps1 where
    "PassSortable_sort debug ps = Inr ps1"
    by blast
  with fl show "\<exists>ps1 out. PassSortable_serialize debug n ser ps line_prefix = Inr (ps1, out)"
    by (simp add: PassSortable_serialize_def)
next
  fix ps1 out
  assume a: "sorted_flag ps = False \<and> PassSortable_serialize debug n ser ps line_prefix = Inr (ps1, out)"
  then have fl: "sorted_flag ps = False"
    and ser: "PassSortable_serialize debug n ser ps line_prefix = Inr (ps1, out)" by simp_all
  from PassSortable_serialize_unsorted [OF fl ser]
  have sort: "PassSortable_sort debug ps = Inr ps1"
    and out: "out = serialize n ser (sub_passes_main (pass_main ps1)) (root_pass (pass_main ps1))
                      line_prefix" by simp_all
  from PassSortable_sort_result [OF fl sort]
  have hs: "headers (root_pass (pass_main ps1))
           = std_sort (sort_less (sorting_values ps)) (headers (root_pass (pass_main ps)))"
    and vs: "sorting_values ps1 = sorting_values ps" and fl1: "sorted_flag ps1 = True"
    by simp_all
  show "headers (root_pass (pass_main ps1))
        = std_sort (sort_less (sorting_values ps)) (headers (root_pass (pass_main ps)))"
    by (rule hs)
  show "sorted_flag ps1 = True" by (rule fl1)
  show "PassSortable_sort debug1 ps1 = Inr ps1" for debug1
    using fl1 by (rule PassSortable_sort_sorted)
  show "PassSortable_serialize debug n ser ps1 line_prefix = Inr (ps1, out)"
    using PassSortable_serialize_sorted [OF fl1] out by simp
  show "\<exists>out1. PassSortable_serialize debug1 n1 ser1 ps1 prefix1 = Inr (ps1, out1)"
    for debug1 n1 ser1 prefix1
    using PassSortable_serialize_sorted [OF fl1] by blast
  show "std_sort (sort_less (sorting_values ps1)) (headers (root_pass (pass_main ps1)))
        = headers (root_pass (pass_main ps1))"
    unfolding hs vs by (rule std_sort_idem)
  show "sorted_flag (PassSortable_init ps1) = False"
    by (simp add: PassSortable_init_def)
qed

theorem PassSortable_sorts_once_per_init_witness:
  "PassSortable_calls True gpu_example sortable_calls_example (PassSortable_init (PassSortable_new ''t''))
     = Inr sortable_example \<and>
   sorted_flag sortable_example = False \<and>
   (\<exists>ps1 out. PassSortable_serialize True 1 ser_example sortable_example [] = Inr (ps1, out) \<and>
      map header_index (headers (root_pass (pass_main ps1))) = [1, 0, 2] \<and>
      PassSortable_sort True ps1 = Inr ps1 \<and>
      PassSortable_serialize True 1 ser_example ps1 [] = Inr (ps1, out))"
proof -
  note t = PassSortable_sorts_once_per_init [of "PassSortable_new ''t''" _ _ sortable_example
      True 1 ser_example "[]"]
  have room: "length (added_values sortable_calls_example) \<le> 2 ^ 32"
    by (simp add: sortable_calls_example_def)
  from t sortable_example_calls room have fl: "sorted_flag sortable_example = False"
    by blast
  from t sortable_example_calls room obtain ps1 out where
    ser: "PassSortable_serialize True 1 ser_example sortable_example [] = Inr (ps1, out)"
    by blast
  from t fl ser have 1: "PassSortable_sort True ps1 = Inr ps1"
    and 2: "PassSortable_serialize True 1 ser_example ps1 [] = Inr (ps1, out)"
    by blast+
  from PassSortable_serialize_unsorted [OF fl ser] sortable_example_sort
  have 3: "map header_index (headers (root_pass (pass_main ps1))) = [1, 0, 2]" by auto
  show ?thesis
    by (intro conjI exI [of _ ps1] exI [of _ out]) (rule sortable_example_calls fl ser 1 2 3)+
qed

end
